theory Spec2Isabelle
  imports Main
begin

section \<open>Python values used by the scraper\<close>

text \<open>
  The exceptions that the scraper raises, lets through or catches. All of them are
  subclasses of Python's \<open>Exception\<close>. \<open>OtherException\<close> stands for any further
  subclass (selenium's NoSuchElementException, WebDriverException and so on).
\<close>

datatype exn =
    PageCheckFailedError
  | ResultsTableNotFoundError
  | ValueError
  | IndexError
  | KeyError
  | AttributeError
  | OverflowError
  | OtherException

text \<open>
  Strings are the UTF-8 bytes of the Python \<open>str\<close>; the operations below act on
  ASCII separators only, so they commute with that encoding.
\<close>

subsection \<open>datetime.date\<close>

text \<open>
  A \<open>date\<close> object holds year, month and day. Differences and sums go through the
  proleptic Gregorian ordinal, as in the standard library.
\<close>

record date =
  year :: int
  month :: int
  day :: int

definition mk_date :: "int \<Rightarrow> int \<Rightarrow> int \<Rightarrow> date" where
  "mk_date y m d = \<lparr>year = y, month = m, day = d\<rparr>"

definition MAXORDINAL :: int where
  "MAXORDINAL = 3652059"

definition is_leap :: "int \<Rightarrow> bool" where
  "is_leap y = (y mod 4 = 0 \<and> (y mod 100 \<noteq> 0 \<or> y mod 400 = 0))"

definition DAYS_IN_MONTH :: "int list" where
  "DAYS_IN_MONTH = [-1, 31, 28, 31, 30, 31, 30, 31, 31, 30, 31, 30, 31]"

definition DAYS_BEFORE_MONTH :: "int list" where
  "DAYS_BEFORE_MONTH = [-1, 0, 31, 59, 90, 120, 151, 181, 212, 243, 273, 304, 334]"

definition days_before_year :: "int \<Rightarrow> int" where
  "days_before_year yr = (let y = yr - 1 in y * 365 + y div 4 - y div 100 + y div 400)"

definition days_in_month :: "int \<Rightarrow> int \<Rightarrow> int" where
  "days_in_month y m = (if m = 2 \<and> is_leap y then 29 else DAYS_IN_MONTH ! nat m)"

definition days_before_month :: "int \<Rightarrow> int \<Rightarrow> int" where
  "days_before_month y m = DAYS_BEFORE_MONTH ! nat m + (if m > 2 \<and> is_leap y then 1 else 0)"

definition valid_date :: "date \<Rightarrow> bool" where
  "valid_date d = (1 \<le> year d \<and> year d \<le> 9999 \<and> 1 \<le> month d \<and> month d \<le> 12 \<and>
     1 \<le> day d \<and> day d \<le> days_in_month (year d) (month d))"

definition toordinal :: "date \<Rightarrow> int" where
  "toordinal d = days_before_year (year d) + days_before_month (year d) (month d) + day d"

definition fromordinal :: "int \<Rightarrow> date" where
  "fromordinal n0 =
    (let n = n0 - 1;
         n400 = n div 146097; n = n mod 146097;
         n100 = n div 36524; n = n mod 36524;
         n4 = n div 1461; n = n mod 1461;
         n1 = n div 365; n = n mod 365;
         yr = n400 * 400 + 1 + n100 * 100 + n4 * 4 + n1
     in if n1 = 4 \<or> n100 = 4 then mk_date (yr - 1) 12 31
        else
          let leapyear = (n1 = 3 \<and> (n4 \<noteq> 24 \<or> n100 = 3));
              m = (n + 50) div 32;
              preceding = DAYS_BEFORE_MONTH ! nat m + (if m > 2 \<and> leapyear then 1 else 0)
          in if preceding > n
             then let m' = m - 1;
                      preceding' = preceding
                        - (DAYS_IN_MONTH ! nat m' + (if m' = 2 \<and> leapyear then 1 else 0))
                  in mk_date yr m' (n - preceding' + 1)
             else mk_date yr m (n - preceding + 1))"

text \<open>\<open>a > b\<close> on dates compares the (year, month, day) triples.\<close>

definition date_gt :: "date \<Rightarrow> date \<Rightarrow> bool" where
  "date_gt a b = (year a > year b \<or> (year a = year b \<and>
     (month a > month b \<or> (month a = month b \<and> day a > day b))))"

text \<open>\<open>(a - b).days\<close>\<close>

definition date_diff_days :: "date \<Rightarrow> date \<Rightarrow> int" where
  "date_diff_days a b = toordinal a - toordinal b"

text \<open>\<open>d + timedelta(days=k)\<close>, which raises OverflowError outside years 1..9999.\<close>

definition date_add_days :: "date \<Rightarrow> int \<Rightarrow> exn + date" where
  "date_add_days d k =
     (let ordn = toordinal d + k
      in if 0 < ordn \<and> ordn \<le> MAXORDINAL then Inr (fromordinal ordn) else Inl OverflowError)"

subsection \<open>Strings and numbers\<close>

definition digit_char :: "nat \<Rightarrow> char" where
  "digit_char n = ''0123456789ABCDEF'' ! n"

text \<open>The decimal digits of a non-negative number.\<close>

function digits :: "int \<Rightarrow> string" where
  "digits n = (if n < 10 then [digit_char (nat n)] else digits (n div 10) @ [digit_char (nat (n mod 10))])"
  by pat_completeness auto
termination
  by (relation "measure nat") auto

declare digits.simps [simp del]

text \<open>\<open>str(i)\<close> for an int.\<close>

definition str_int :: "int \<Rightarrow> string" where
  "str_int i = (if i < 0 then CHR ''-'' # digits (- i) else digits i)"

text \<open>Zero padding to a width, as \<open>%02d\<close> does for a non-negative number.\<close>

definition zero_pad :: "nat \<Rightarrow> int \<Rightarrow> string" where
  "zero_pad w i = (let s = str_int i in replicate (w - length s) CHR ''0'' @ s)"

text \<open>
  \<open>d.strftime("%Y-%m-%d")\<close>. The year is written with four digits (CPython normalises
  the century; for years from 1000 on every platform agrees).
\<close>

definition strftime_ymd :: "date \<Rightarrow> string" where
  "strftime_ymd d = zero_pad 4 (year d) @ ''-'' @ zero_pad 2 (month d) @ ''-'' @ zero_pad 2 (day d)"

text \<open>\<open>sep.join(xs)\<close>\<close>

fun join :: "string \<Rightarrow> string list \<Rightarrow> string" where
  "join sep [] = []"
| "join sep [x] = x"
| "join sep (x # y # ys) = x @ sep @ join sep (y # ys)"

text \<open>\<open>s.split(c)\<close> with an explicit one-character separator: empty pieces are kept.\<close>

fun split_char :: "char \<Rightarrow> string \<Rightarrow> string list" where
  "split_char c [] = [[]]"
| "split_char c (x # xs) =
     (if x = c then [] # split_char c xs
      else (case split_char c xs of [] \<Rightarrow> [[x]] | p # ps \<Rightarrow> (x # p) # ps))"

text \<open>\<open>s.strip(c)\<close> with a one-character set: the character is removed at BOTH ends.\<close>

definition strip_char :: "char \<Rightarrow> string \<Rightarrow> string" where
  "strip_char c s = rev (dropWhile (\<lambda>x. x = c) (rev (dropWhile (\<lambda>x. x = c) s)))"

text \<open>\<open>s.replace(c, "")\<close> for a one-character pattern.\<close>

definition remove_char :: "char \<Rightarrow> string \<Rightarrow> string" where
  "remove_char c s = filter (\<lambda>x. x \<noteq> c) s"

subsection \<open>urllib.parse\<close>

definition always_safe :: "char \<Rightarrow> bool" where
  "always_safe c = (c \<in> set ''ABCDEFGHIJKLMNOPQRSTUVWXYZabcdefghijklmnopqrstuvwxyz0123456789_.-~'')"

definition percent_byte :: "char \<Rightarrow> string" where
  "percent_byte c = [CHR ''%'', digit_char (of_char c div 16), digit_char (of_char c mod 16)]"

text \<open>\<open>quote(s)\<close> with its default \<open>safe='/'\<close>.\<close>

definition quote :: "string \<Rightarrow> string" where
  "quote s = concat (map (\<lambda>c. if always_safe c \<or> c = CHR ''/'' then [c] else percent_byte c) s)"

text \<open>\<open>quote_plus(s)\<close> with \<open>safe=''\<close>, as \<open>urlencode\<close> calls it: a space becomes a plus sign.\<close>

definition quote_plus :: "string \<Rightarrow> string" where
  "quote_plus s = concat (map (\<lambda>c. if c = CHR '' '' then ''+''
                                    else if always_safe c then [c] else percent_byte c) s)"

text \<open>\<open>urlencode(d)\<close> on a dict whose values are already strings, in insertion order.\<close>

definition urlencode :: "(string \<times> string) list \<Rightarrow> string" where
  "urlencode kvs = join ''&'' (map (\<lambda>(k, v). quote_plus k @ ''='' @ quote_plus v) kvs)"

section \<open>The query encoder\<close>

definition BASE_URL :: string where
  "BASE_URL = ''https://www.sec.gov/edgar/search/#/''"

definition FILING_CATEGORIES_MAPPING :: "(string \<times> string) list" where
  "FILING_CATEGORIES_MAPPING =
    [(''all_except_section_16'', ''form-cat0''),
     (''all_annual_quarterly_and_current_reports'', ''form-cat1''),
     (''all_section_16'', ''form-cat2''),
     (''beneficial_ownership_reports'', ''form-cat3''),
     (''exempt_offerings'', ''form-cat4''),
     (''registration_statements'', ''form-cat5''),
     (''filing_review_correspondence'', ''form-cat6''),
     (''sec_orders_and_notices'', ''form-cat7''),
     (''proxy_materials'', ''form-cat8''),
     (''tender_offers_and_going_private_tx'', ''form-cat9''),
     (''trust_indentures'', ''form-cat10'')]"

definition DEFAULT_BATCHES_NUMBER :: int where
  "DEFAULT_BATCHES_NUMBER = 2"

text \<open>The search criteria that stay fixed during one harvest.\<close>

record criteria =
  search_keywords :: "string list"
  entity_identifier :: "string option"
  filing_category :: "string option"
  exact_search :: bool

text \<open>A Python truth test on an \<open>Optional[str]\<close>: None and the empty string are false.\<close>

definition truthy :: "string option \<Rightarrow> bool" where
  "truthy v = (case v of None \<Rightarrow> False | Some s \<Rightarrow> s \<noteq> [])"

definition generate_request_args :: "criteria \<Rightarrow> date \<Rightarrow> date \<Rightarrow> int \<Rightarrow> exn + string" where
  "generate_request_args c start_date end_date page_number =
    (if date_gt start_date end_date then Inl ValueError
     else
       let kw = join '' '' (search_keywords c);
           kw = (if exact_search c then [CHR 0x22] @ kw @ [CHR 0x22] else kw);
           request_args = [(''q'', quote kw),
                           (''dateRange'', ''custom''),
                           (''startdt'', strftime_ymd start_date),
                           (''enddt'', strftime_ymd end_date),
                           (''page'', str_int page_number)];
           request_args = (if truthy (entity_identifier c)
                           then request_args @ [(''entityName'', the (entity_identifier c))]
                           else request_args)
       in if truthy (filing_category c)
          then (case map_of FILING_CATEGORIES_MAPPING (the (filing_category c)) of
                  None \<Rightarrow> Inl KeyError
                | Some code \<Rightarrow> Inr (urlencode (request_args @ [(''category'', code)])))
          else Inr (urlencode request_args))"

section \<open>The browser and the pages it shows\<close>

text \<open>One results row, as the sub-elements and attributes the parser looks up.
  A field is None when the sub-element (or the attribute) is absent.\<close>

record link_element =
  link_inner_text :: "string option"
  link_href :: "string option"

record preview_element =
  attr_data_adsh :: "string option"
  attr_data_file_name :: "string option"

record filetype_element =
  filetype_text :: string
  preview_file :: "preview_element option"

record row_element =
  file_num_a :: "link_element option"
  filetype :: "filetype_element option"
  cik_inner_text :: "string option"
  filed_text :: "string option"
  enddate_text :: "string option"
  entity_name_text :: "string option"
  biz_location_inner_text :: "string option"
  incorporated_inner_text :: "string option"
  film_num_inner_text :: "string option"

text \<open>
  What one call of \<open>fetch_page(driver, url, wait, retries)(check)\<close> leaves behind:
  \<^item> \<open>fetch_error\<close>: the exception the call raised, if any (PageCheckFailedError when
    the check never succeeded within the retries);
  \<^item> \<open>result_count\<close>: what \<open>int(find_element(By.ID, "show-result-count").text.replace(",",
    "").split(" ")[0])\<close> evaluates to on the page shown: the integer, ValueError when
    \<open>int\<close> rejects the text, another exception when the element is absent;
  \<^item> \<open>table\<close>: the rows of the results table, or the exception its lookup raises.
\<close>

record page =
  fetch_error :: "exn option"
  result_count :: "exn + int"
  table :: "exn + row_element list"

text \<open>The source: the page that the k-th fetch of the session shows for a URL.\<close>

type_synonym web = "nat \<Rightarrow> string \<Rightarrow> page"

text \<open>
  The mutable state: the scraper's \<open>search_requests\<close> list, the URLs the driver has
  been sent to so far, and the content of \<open>results.csv\<close>.
\<close>

record state =
  search_requests :: "string list"
  history :: "string list"
  results_csv :: string

definition fetch_page :: "web \<Rightarrow> string \<Rightarrow> state \<Rightarrow> state \<times> page" where
  "fetch_page w url st = (st\<lparr>history := history st @ [url]\<rparr>, w (length (history st)) url)"

definition parse_number_of_results :: "page \<Rightarrow> exn + int" where
  "parse_number_of_results p = result_count p"

text \<open>\<open>ceil(num_results / 100)\<close>, exact for every count below 2^53.\<close>

definition compute_number_of_pages :: "page \<Rightarrow> exn + int" where
  "compute_number_of_pages p =
     (case parse_number_of_results p of Inl e \<Rightarrow> Inl e | Inr num_results \<Rightarrow> Inr (- ((- num_results) div 100)))"

definition fetch_first_page_results_number :: "web \<Rightarrow> string \<Rightarrow> state \<Rightarrow> state \<times> (exn + int)" where
  "fetch_first_page_results_number w url st =
     (let (st1, p) = fetch_page w url st
      in case fetch_error p of
           Some e \<Rightarrow> (st1, Inl e)
         | None \<Rightarrow> (st1, parse_number_of_results p))"

section \<open>The record parser\<close>

record filing_record =
  filing_type :: string
  filed_at :: "string option"
  reporting_for :: "string option"
  entity_name :: "string option"
  company_cik :: "string option"
  place_of_business :: "string option"
  incorporated_location :: "string option"
  file_num :: "string option"
  film_num :: "string option"
  file_num_search_url :: "string option"
  filing_details_url :: string
  filing_document_url :: string

text \<open>
  Modelled from the spec: \<open>try_or_none\<close> of \<open>src.utils\<close> is not among the sources. The
  spec says that a field whose underlying sub-element is absent resolves to an explicit
  "missing" marker rather than raising: the wrapped lookup gives None where it raises.
\<close>

definition try_or_none :: "('a \<Rightarrow> exn + 'b option) \<Rightarrow> 'a \<Rightarrow> 'b option" where
  "try_or_none f x = (case f x of Inl e \<Rightarrow> None | Inr v \<Rightarrow> v)"

text \<open>\<open>row.find_element(...)\<close> followed by \<open>.text\<close> or \<open>.get_attribute(...)\<close>.\<close>

definition element_value :: "string option \<Rightarrow> exn + string option" where
  "element_value v = (case v of None \<Rightarrow> Inl OtherException | Some t \<Rightarrow> Inr (Some t))"

text \<open>\<open>row.find_element(By.CLASS_NAME, "cik").get_attribute("innerText").split(" ")[1]\<close>\<close>

definition cik_lookup :: "row_element \<Rightarrow> exn + string option" where
  "cik_lookup r =
     (case cik_inner_text r of
        None \<Rightarrow> Inl OtherException
      | Some t \<Rightarrow> (let parts = split_char CHR '' '' t
                  in if 1 < length parts then Inr (Some (parts ! 1)) else Inl IndexError))"

text \<open>An attribute of the file-number link; \<open>None.get_attribute\<close> raises AttributeError.\<close>

definition link_attr :: "link_element option \<Rightarrow> (link_element \<Rightarrow> string option) \<Rightarrow> exn + string option" where
  "link_attr tag sel = (case tag of None \<Rightarrow> Inl AttributeError | Some a \<Rightarrow> Inr (sel a))"

text \<open>How an f-string prints an optional string.\<close>

definition fmt_opt :: "string option \<Rightarrow> string" where
  "fmt_opt v = (case v of None \<Rightarrow> ''None'' | Some s \<Rightarrow> s)"

definition parse_table_row :: "row_element \<Rightarrow> exn + filing_record" where
  "parse_table_row r =
    (let file_link_tag = file_num_a r;
         ftype = filetype r
     in case ftype of
          None \<Rightarrow> Inl AttributeError
        | Some ft \<Rightarrow>
           (case preview_file ft of
              None \<Rightarrow> Inl OtherException
            | Some filing_type_link \<Rightarrow>
               (let cik = try_or_none cik_lookup r
                in case cik of
                     None \<Rightarrow> Inl AttributeError
                   | Some cik_raw \<Rightarrow>
                      (let cik_cleaned = strip_char CHR ''0'' cik_raw
                       in case attr_data_adsh filing_type_link of
                            None \<Rightarrow> Inl AttributeError
                          | Some data_adsh \<Rightarrow>
                             (let data_adsh_no_dash = remove_char CHR ''-'' data_adsh;
                                  data_file_name = attr_data_file_name filing_type_link
                              in Inr \<lparr>
                                filing_type = filetype_text ft,
                                filed_at = try_or_none (\<lambda>row. element_value (filed_text row)) r,
                                reporting_for = try_or_none (\<lambda>row. element_value (enddate_text row)) r,
                                entity_name = try_or_none (\<lambda>row. element_value (entity_name_text row)) r,
                                company_cik = cik,
                                place_of_business =
                                  try_or_none (\<lambda>row. element_value (biz_location_inner_text row)) r,
                                incorporated_location =
                                  try_or_none (\<lambda>row. element_value (incorporated_inner_text row)) r,
                                file_num = try_or_none (\<lambda>row. link_attr file_link_tag link_inner_text) r,
                                film_num = try_or_none (\<lambda>row. element_value (film_num_inner_text row)) r,
                                file_num_search_url =
                                  try_or_none (\<lambda>row. link_attr file_link_tag link_href) r,
                                filing_details_url =
                                  ''https://www.sec.gov/Archives/edgar/data/'' @ cik_cleaned @ ''/''
                                    @ data_adsh_no_dash @ ''/'' @ data_adsh @ ''-index.html'',
                                filing_document_url =
                                  ''https://www.sec.gov/Archives/edgar/data/'' @ cik_cleaned @ ''/''
                                    @ data_adsh_no_dash @ ''/'' @ fmt_opt data_file_name\<rparr>)))))"

text \<open>The loop over the rows: the first row that raises ends the whole call.\<close>

fun parse_table_rows :: "row_element list \<Rightarrow> exn + filing_record list" where
  "parse_table_rows [] = Inr []"
| "parse_table_rows (r # rows) =
     (case parse_table_row r of
        Inl e \<Rightarrow> Inl e
      | Inr rec \<Rightarrow> (case parse_table_rows rows of Inl e \<Rightarrow> Inl e | Inr recs \<Rightarrow> Inr (rec # recs)))"

text \<open>
  Modelled from the spec: \<open>extract_html_table_rows\<close> of \<open>src.browser\<close> is not among the
  sources. The spec's row extractor, given a located results table, returns its row
  elements, or raises the results-surface-not-found error if none exist; the rows go
  to the parser it is applied to.
\<close>

definition extract_html_table_rows :: "page \<Rightarrow> (row_element list \<Rightarrow> exn + 'a) \<Rightarrow> exn + 'a" where
  "extract_html_table_rows p parser =
     (case table p of
        Inl e \<Rightarrow> Inl e
      | Inr rows \<Rightarrow> (if rows = [] then Inl ResultsTableNotFoundError else parser rows))"

section \<open>The sink writer\<close>

definition fieldnames :: "string list" where
  "fieldnames = [''filing_type'', ''filed_at'', ''reporting_for'', ''entity_name'', ''company_cik'',
     ''place_of_business'', ''incorporated_location'', ''file_num'', ''film_num'',
     ''file_num_search_url'', ''filing_details_url'', ''filing_document_url'']"

text \<open>One field as \<open>csv.writer\<close> writes it under the default dialect (minimal quoting).\<close>

definition csv_field :: "string \<Rightarrow> string" where
  "csv_field s =
     (if \<exists>c \<in> set s. c = CHR '','' \<or> c = CHR 0x22 \<or> c = CHR 0x0D \<or> c = CHR 0x0A
      then [CHR 0x22] @ concat (map (\<lambda>c. if c = CHR 0x22 then [CHR 0x22, CHR 0x22] else [c]) s) @ [CHR 0x22]
      else s)"

definition csv_line :: "string list \<Rightarrow> string" where
  "csv_line vals = join '','' (map csv_field vals) @ [CHR 0x0D, CHR 0x0A]"

text \<open>None is written as the empty string.\<close>

definition csv_opt :: "string option \<Rightarrow> string" where
  "csv_opt v = (case v of None \<Rightarrow> [] | Some s \<Rightarrow> s)"

definition writeheader :: string where
  "writeheader = csv_line fieldnames"

definition writerow :: "filing_record \<Rightarrow> string" where
  "writerow r = csv_line [filing_type r, csv_opt (filed_at r), csv_opt (reporting_for r),
     csv_opt (entity_name r), csv_opt (company_cik r), csv_opt (place_of_business r),
     csv_opt (incorporated_location r), csv_opt (file_num r), csv_opt (film_num r),
     csv_opt (file_num_search_url r), filing_details_url r, filing_document_url r]"

text \<open>
  The file is opened for appending, so \<open>f.tell()\<close> is its length. The argument is the
  content before the call, the result the content after it.
\<close>

definition write_results_to_csv :: "filing_record list list \<Rightarrow> string \<Rightarrow> string" where
  "write_results_to_csv data f =
     (let f1 = (if length f = 0 then f @ writeheader else f)
      in f1 @ concat (map writerow (concat data)))"

section \<open>The paginated harvester\<close>

text \<open>
  The loop over \<open>range(1, num_pages + 1)\<close>. Each of the three handlers prints and goes
  on with the next page; the result is the list of the page results yielded.
\<close>

fun fetch_pages :: "web \<Rightarrow> string \<Rightarrow> int list \<Rightarrow> state \<Rightarrow> state \<times> filing_record list list" where
  "fetch_pages w search_request [] st = (st, [])"
| "fetch_pages w search_request (i # rest) st =
     (let paginated_url = BASE_URL @ search_request @ ''&page='' @ str_int i;
          (st1, p) = fetch_page w paginated_url st;
          page_results = (case fetch_error p of
                            Some e \<Rightarrow> Inl e
                          | None \<Rightarrow> extract_html_table_rows p parse_table_rows);
          (st2, yielded) = fetch_pages w search_request rest st1
      in case page_results of
           Inl e \<Rightarrow> (st2, yielded)
         | Inr recs \<Rightarrow> (st2, recs # yielded))"

text \<open>
  The generator, run to its end: the state after it, the page results it yielded, and
  the exception that ended it, if any (only the first fetch and the page count can
  raise, before anything is yielded).
\<close>

definition fetch_search_request_results ::
  "web \<Rightarrow> string \<Rightarrow> state \<Rightarrow> state \<times> filing_record list list \<times> exn option" where
  "fetch_search_request_results w search_request st =
     (let (st1, p) = fetch_page w (BASE_URL @ search_request) st
      in case fetch_error p of
           Some e \<Rightarrow> (st1, [], Some e)
         | None \<Rightarrow>
            (case compute_number_of_pages p of
               Inl e \<Rightarrow> (st1, [], Some e)
             | Inr num_pages \<Rightarrow>
                (let (st2, yielded) = fetch_pages w search_request [1..num_pages] st1
                 in (st2, yielded, None))))"

text \<open>
  The loop of \<open>custom_text_search\<close> over the finalized queries. The writer consumes the
  generator; whatever the generator raises is caught, printed, and the loop goes on.
\<close>

fun harvest :: "web \<Rightarrow> string list \<Rightarrow> state \<Rightarrow> state" where
  "harvest w [] st = st"
| "harvest w (r # rs) st =
     (let (st1, results, raised) = fetch_search_request_results w r st;
          st2 = st1\<lparr>results_csv := write_results_to_csv results (results_csv st1)\<rparr>
      in harvest w rs st2)"

section \<open>The recursive partitioner\<close>

text \<open>
  Modelled from the spec: \<open>split_date_range_in_n\<close> of \<open>src.utils\<close> is not among the
  sources. The spec: the interval is split into \<open>num_batches\<close> contiguous,
  non-overlapping sub-intervals covering [start, end] exactly, sub-interval i > 0
  starting the day after the previous sub-interval's end; the split of a zero-length
  interval produces no sub-interval. The partitioner reads the result as the list of
  boundary dates, sub-interval i running from boundary i (plus one day when i > 0) to
  boundary i + 1; so the boundaries are start, the evenly spaced dates between, and end.
\<close>

definition split_date_range_in_n :: "date \<Rightarrow> date \<Rightarrow> int \<Rightarrow> date list" where
  "split_date_range_in_n start_date end_date n =
     map (\<lambda>i. fromordinal (toordinal start_date + (date_diff_days end_date start_date * int i) div n))
         [0..<nat n]
     @ [end_date]"

text \<open>
  The partitioner calls itself; the first argument bounds the depth of the calls, and
  None says that the bound was reached. The result is the state it leaves (appends to
  \<open>search_requests\<close> stay when an exception passes) and the exception raised, if any.
  \<open>split_loop\<close> is the loop over \<open>enumerate(dates)\<close>: \<open>i\<close> is the index and the list the
  dates from index \<open>i\<close> on, so that \<open>dates[i + 1]\<close> is the second element and raises
  IndexError when there is none.
\<close>

fun generate_search_requests ::
    "nat \<Rightarrow> web \<Rightarrow> criteria \<Rightarrow> date \<Rightarrow> date \<Rightarrow> state \<Rightarrow> (state \<times> exn option) option"
  and split_loop ::
    "nat \<Rightarrow> web \<Rightarrow> criteria \<Rightarrow> nat \<Rightarrow> date list \<Rightarrow> state \<Rightarrow> (state \<times> exn option) option"
where
  "generate_search_requests 0 w c start_date end_date st = None"
| "generate_search_requests (Suc depth) w c start_date end_date st =
     (case generate_request_args c start_date end_date 1 of
        Inl e \<Rightarrow> Some (st, Some e)
      | Inr request_args \<Rightarrow>
         (let url = BASE_URL @ request_args;
              (st1, fetched) = fetch_first_page_results_number w url st
          in case (case fetched of Inl ValueError \<Rightarrow> Inr 10000 | other \<Rightarrow> other) of
               Inl e \<Rightarrow> Some (st1, Some e)
             | Inr num_results \<Rightarrow>
                (if num_results < 10000
                 then Some (st1\<lparr>search_requests := search_requests st1 @ [request_args]\<rparr>, None)
                 else
                   (let num_batches = min (date_diff_days end_date start_date) DEFAULT_BATCHES_NUMBER;
                        dates = split_date_range_in_n start_date end_date num_batches
                    in split_loop depth w c 0 dates st1))))"
| "split_loop depth w c i [] st = Some (st, None)"
| "split_loop depth w c i (d # rest) st =
     (case (if i = 0 then Inr d else date_add_days d 1) of
        Inl e \<Rightarrow> (if e = IndexError then split_loop depth w c (i + 1) rest st else Some (st, Some e))
      | Inr start \<Rightarrow>
         (case rest of
            [] \<Rightarrow> split_loop depth w c (i + 1) rest st
          | end # later \<Rightarrow>
             (case generate_search_requests depth w c start end st of
                None \<Rightarrow> None
              | Some (st', None) \<Rightarrow> split_loop depth w c (i + 1) rest st'
              | Some (st', Some e) \<Rightarrow>
                 (if e = IndexError then split_loop depth w c (i + 1) rest st'
                  else Some (st', Some e)))))"

section \<open>The harvest operation\<close>

text \<open>
  \<open>custom_text_search\<close>: partition, then harvest the whole \<open>search_requests\<close> list. An
  exception of the partitioner passes to the caller.
\<close>

definition custom_text_search ::
    "nat \<Rightarrow> web \<Rightarrow> criteria \<Rightarrow> date \<Rightarrow> date \<Rightarrow> state \<Rightarrow> (state \<times> exn option) option" where
  "custom_text_search depth w c start_date end_date st =
     (case generate_search_requests depth w c start_date end_date st of
        None \<Rightarrow> None
      | Some (st1, Some e) \<Rightarrow> Some (st1, Some e)
      | Some (st1, None) \<Rightarrow> Some (harvest w (search_requests st1) st1, None))"

text \<open>A scraper as \<open>__init__\<close> leaves it, with an empty results file.\<close>

definition init_state :: state where
  "init_state = \<lparr>search_requests = [], history = [], results_csv = []\<rparr>"

section \<open>Notions used in the statements\<close>

text \<open>What the partitioner reads from the first page of a query: the count, or the
  exception of the fetch or of the count reader.\<close>

definition first_page_outcome :: "page \<Rightarrow> exn + int" where
  "first_page_outcome p = (case fetch_error p of Some e \<Rightarrow> Inl e | None \<Rightarrow> parse_number_of_results p)"

text \<open>The same page with an unreadable count on a fetched page replaced by 10000.\<close>

definition assume_saturated :: "page \<Rightarrow> page" where
  "assume_saturated p =
     (if fetch_error p = None \<and> result_count p = Inl ValueError then p\<lparr>result_count := Inr 10000\<rparr> else p)"

text \<open>A run only adds to the driver's history and to \<open>search_requests\<close>.\<close>

definition grows :: "state \<Rightarrow> state \<Rightarrow> bool" where
  "grows st st' = ((\<exists>hs. history st' = history st @ hs)
     \<and> (\<exists>qs. search_requests st' = search_requests st @ qs) \<and> results_csv st' = results_csv st)"

text \<open>A failure of a fetch made between two states, other than ValueError and
  IndexError, is the exception of the run and its last fetch.\<close>

definition propagates :: "web \<Rightarrow> state \<Rightarrow> state \<Rightarrow> exn option \<Rightarrow> bool" where
  "propagates w st st' r =
     (\<forall>k ex. length (history st) \<le> k \<longrightarrow> k < length (history st') \<longrightarrow>
        first_page_outcome (w k (history st' ! k)) = Inl ex \<longrightarrow> ex \<noteq> ValueError \<longrightarrow> ex \<noteq> IndexError \<longrightarrow>
        r = Some ex \<and> Suc k = length (history st'))"

text \<open>Notions for the statements about the encoder: the code of one character, the
  value of a decimal string, the fields of a query string, and the logical inputs of the
  encoder.\<close>

definition enc_plus :: "char \<Rightarrow> string" where
  "enc_plus c = (if c = CHR '' '' then ''+'' else if always_safe c then [c] else percent_byte c)"

definition enc_quote :: "char \<Rightarrow> string" where
  "enc_quote c = (if always_safe c \<or> c = CHR ''/'' then [c] else percent_byte c)"

definition digit_val :: "char \<Rightarrow> int" where
  "digit_val c = int (of_char c) - 48"

definition dec_val :: "string \<Rightarrow> int" where
  "dec_val s = foldl (\<lambda>a c. 10 * a + digit_val c) 0 s"

text \<open>The names of the fields of a query string: what stands before the equals sign
  in each piece between ampersands.\<close>

definition field_names :: "string \<Rightarrow> string list" where
  "field_names s = map (takeWhile (\<lambda>c. c \<noteq> CHR ''='')) (split_char CHR ''&'' s)"

text \<open>One key and value as \<open>urlencode\<close> writes them.\<close>

definition encode_field :: "string \<times> string \<Rightarrow> string" where
  "encode_field kv = quote_plus (fst kv) @ ''='' @ quote_plus (snd kv)"

text \<open>What the encoder keeps of the criteria: the text it quotes for the field q, and
  the optional fields it does not omit.\<close>

definition keyword_text :: "criteria \<Rightarrow> string" where
  "keyword_text c = (let kw = join '' '' (search_keywords c)
                     in if exact_search c then [CHR 0x22] @ kw @ [CHR 0x22] else kw)"

definition given_entity :: "criteria \<Rightarrow> string option" where
  "given_entity c = (if truthy (entity_identifier c) then entity_identifier c else None)"

definition given_category :: "criteria \<Rightarrow> string option" where
  "given_category c = (if truthy (filing_category c) then filing_category c else None)"

text \<open>The dict of the encoder, as the list of its items in insertion order.\<close>

definition request_fields :: "criteria \<Rightarrow> date \<Rightarrow> date \<Rightarrow> int \<Rightarrow> (string \<times> string) list" where
  "request_fields c s e p =
     [(''q'', quote (keyword_text c)), (''dateRange'', ''custom''), (''startdt'', strftime_ymd s),
      (''enddt'', strftime_ymd e), (''page'', str_int p)]
     @ (case given_entity c of None \<Rightarrow> [] | Some ent \<Rightarrow> [(''entityName'', ent)])
     @ (case given_category c of None \<Rightarrow> []
        | Some cat \<Rightarrow> [(''category'', the (map_of FILING_CATEGORIES_MAPPING cat))])"

text \<open>
  What \<open>csv.reader\<close> reads back from a text under the default dialect (comma, double
  quote, a doubled quote inside a quoted field, rows ended by carriage return, line
  feed or both): the states of its parser, with the field and the row read so far,
  and the rows of a text. An empty line reads as the empty row.
\<close>

datatype reader_state = StartRecord | StartField | InField | InQuotedField | QuoteInQuotedField

fun csv_read :: "reader_state \<Rightarrow> string \<Rightarrow> string list \<Rightarrow> string \<Rightarrow> string list list" where
  "csv_read q f fs [] = (if q = StartRecord then [] else [fs @ [f]])"
| "csv_read StartRecord f fs (c # cs) =
     (if c = CHR 0x0D then (case cs of [] \<Rightarrow> [[]]
                             | c' # cs' \<Rightarrow> if c' = CHR 0x0A then [] # csv_read StartRecord [] [] cs'
                                          else [] # csv_read StartRecord [] [] (c' # cs'))
      else if c = CHR 0x0A then [] # csv_read StartRecord [] [] cs
      else if c = CHR 0x22 then csv_read InQuotedField [] [] cs
      else if c = CHR '','' then csv_read StartField [] [[]] cs
      else csv_read InField [c] [] cs)"
| "csv_read StartField f fs (c # cs) =
     (if c = CHR 0x0D then (case cs of [] \<Rightarrow> [fs @ [[]]]
                             | c' # cs' \<Rightarrow> if c' = CHR 0x0A then (fs @ [[]]) # csv_read StartRecord [] [] cs'
                                          else (fs @ [[]]) # csv_read StartRecord [] [] (c' # cs'))
      else if c = CHR 0x0A then (fs @ [[]]) # csv_read StartRecord [] [] cs
      else if c = CHR 0x22 then csv_read InQuotedField [] fs cs
      else if c = CHR '','' then csv_read StartField [] (fs @ [[]]) cs
      else csv_read InField [c] fs cs)"
| "csv_read InField f fs (c # cs) =
     (if c = CHR 0x0D then (case cs of [] \<Rightarrow> [fs @ [f]]
                             | c' # cs' \<Rightarrow> if c' = CHR 0x0A then (fs @ [f]) # csv_read StartRecord [] [] cs'
                                          else (fs @ [f]) # csv_read StartRecord [] [] (c' # cs'))
      else if c = CHR 0x0A then (fs @ [f]) # csv_read StartRecord [] [] cs
      else if c = CHR '','' then csv_read StartField [] (fs @ [f]) cs
      else csv_read InField (f @ [c]) fs cs)"
| "csv_read InQuotedField f fs (c # cs) =
     (if c = CHR 0x22 then csv_read QuoteInQuotedField f fs cs
      else csv_read InQuotedField (f @ [c]) fs cs)"
| "csv_read QuoteInQuotedField f fs (c # cs) =
     (if c = CHR 0x22 then csv_read InQuotedField (f @ [CHR 0x22]) fs cs
      else if c = CHR '','' then csv_read StartField [] (fs @ [f]) cs
      else if c = CHR 0x0D then (case cs of [] \<Rightarrow> [fs @ [f]]
                             | c' # cs' \<Rightarrow> if c' = CHR 0x0A then (fs @ [f]) # csv_read StartRecord [] [] cs'
                                          else (fs @ [f]) # csv_read StartRecord [] [] (c' # cs'))
      else if c = CHR 0x0A then (fs @ [f]) # csv_read StartRecord [] [] cs
      else csv_read InField (f @ [c]) fs cs)"

definition csv_rows :: "string \<Rightarrow> string list list" where
  "csv_rows s = csv_read StartRecord [] [] s"

text \<open>The values of a record in the order of the columns, None as the empty string.\<close>

definition record_values :: "filing_record \<Rightarrow> string list" where
  "record_values r = [filing_type r, csv_opt (filed_at r), csv_opt (reporting_for r),
     csv_opt (entity_name r), csv_opt (company_cik r), csv_opt (place_of_business r),
     csv_opt (incorporated_location r), csv_opt (file_num r), csv_opt (film_num r),
     csv_opt (file_num_search_url r), filing_details_url r, filing_document_url r]"

text \<open>The characters that make the writer quote a field, the body of a quoted field,
  and whether a text holds a line break.\<close>

definition csv_special :: "char \<Rightarrow> bool" where
  "csv_special c = (c = CHR '','' \<or> c = CHR 0x22 \<or> c = CHR 0x0D \<or> c = CHR 0x0A)"

definition has_line_break :: "string \<Rightarrow> bool" where
  "has_line_break s = (CHR 0x0D \<in> set s \<or> CHR 0x0A \<in> set s)"

definition csv_escape :: "string \<Rightarrow> string" where
  "csv_escape s = concat (map (\<lambda>c. if c = CHR 0x22 then [CHR 0x22, CHR 0x22] else [c]) s)"

subsection \<open>Concrete inputs\<close>

text \<open>The keywords annual and report, and the days of January 2024.\<close>

definition crit0 :: criteria where
  "crit0 = \<lparr>search_keywords = [''annual'', ''report''], entity_identifier = None,
             filing_category = None, exact_search = False\<rparr>"

definition jan :: "int \<Rightarrow> date" where
  "jan d = mk_date 2024 1 d"

text \<open>A fetched page that shows the count \<open>n\<close> and no rows.\<close>

definition count_page :: "int \<Rightarrow> page" where
  "count_page n = \<lparr>fetch_error = None, result_count = Inr n, table = Inr []\<rparr>"

text \<open>A source that reports the cap for every query.\<close>

definition saturated_web :: web where
  "saturated_web k u = count_page 10000"

text \<open>A source with 6000 matches on each single day of 1 to 3 January 2024, so that
  no single day is over the cap, and a saturated count for every longer range.\<close>

definition day_url :: "date \<Rightarrow> string" where
  "day_url d = BASE_URL @ (case generate_request_args crit0 d d 1 of Inl e \<Rightarrow> [] | Inr a \<Rightarrow> a)"

definition busy_days_web :: web where
  "busy_days_web k u = count_page (if u \<in> set (map day_url [jan 1, jan 2, jan 3]) then 6000 else 12000)"

text \<open>A fetch that fails with an exception other than the verification timeout.\<close>

definition broken_page :: page where
  "broken_page = \<lparr>fetch_error = Some OtherException, result_count = Inl OtherException,
                   table = Inl OtherException\<rparr>"

text \<open>A source whose first fetch shows a saturated count and whose later fetches fail.\<close>

definition breaking_web :: web where
  "breaking_web k u = (if k = 0 then count_page 12000 else broken_page)"

text \<open>A source whose first fetch shows an unreadable count and whose later fetches show 50.\<close>

definition unreadable_page :: page where
  "unreadable_page = \<lparr>fetch_error = None, result_count = Inl ValueError, table = Inr []\<rparr>"

definition unreadable_web :: web where
  "unreadable_web k u = (if k = 0 then unreadable_page else count_page 50)"

text \<open>A results row of the company with CIK 1018840.\<close>

definition row_cik_1018840 :: row_element where
  "row_cik_1018840 = \<lparr>
     file_num_a = Some \<lparr>link_inner_text = Some ''001-12345'',
        link_href = Some ''https://www.sec.gov/cgi-bin/browse-edgar?action=getcompany&filenum=001-12345''\<rparr>,
     filetype = Some \<lparr>filetype_text = ''10-K'',
        preview_file = Some \<lparr>attr_data_adsh = Some ''0001018840-24-000012'',
                              attr_data_file_name = Some ''anf-20240203.htm''\<rparr>\<rparr>,
     cik_inner_text = Some ''CIK 0001018840'',
     filed_text = Some ''2024-04-01'',
     enddate_text = Some ''2024-02-03'',
     entity_name_text = Some ''ABERCROMBIE & FITCH CO /DE/ (ANF)'',
     biz_location_inner_text = Some ''New Albany, OH'',
     incorporated_inner_text = Some ''Delaware'',
     film_num_inner_text = Some ''24806270''\<rparr>"

text \<open>A filing record, as the parser builds it.\<close>

definition sample_record :: filing_record where
  "sample_record = \<lparr>
     filing_type = ''10-K'',
     filed_at = Some ''2024-04-01'',
     reporting_for = Some ''2024-02-03'',
     entity_name = Some ''ABERCROMBIE & FITCH CO /DE/ (ANF)'',
     company_cik = Some ''0001018840'',
     place_of_business = Some ''New Albany, OH'',
     incorporated_location = Some ''Delaware'',
     file_num = Some ''001-12345'',
     film_num = None,
     file_num_search_url = Some ''https://www.sec.gov/cgi-bin/browse-edgar?action=getcompany&filenum=001-12345'',
     filing_details_url =
       ''https://www.sec.gov/Archives/edgar/data/1018840/000101884024000012/0001018840-24-000012-index.html'',
     filing_document_url =
       ''https://www.sec.gov/Archives/edgar/data/1018840/000101884024000012/anf-20240203.htm''\<rparr>"

text \<open>The URL of page \<open>i\<close> of a finalized query, and what its fetch and parse give.\<close>

definition page_url :: "string \<Rightarrow> int \<Rightarrow> string" where
  "page_url r i = BASE_URL @ r @ ''&page='' @ str_int i"

definition page_outcome :: "page \<Rightarrow> exn + filing_record list" where
  "page_outcome p = (case fetch_error p of Some e \<Rightarrow> Inl e | None \<Rightarrow> extract_html_table_rows p parse_table_rows)"

text \<open>Sources and states for the harvester.\<close>

definition timeout_page :: page where
  "timeout_page = \<lparr>fetch_error = Some PageCheckFailedError, result_count = Inl OtherException,
                    table = Inl OtherException\<rparr>"

definition rows_page :: page where
  "rows_page = \<lparr>fetch_error = None, result_count = Inr 450, table = Inr [row_cik_1018840]\<rparr>"

definition five_page_web :: web where
  "five_page_web k u =
     (if k = 0 then count_page 450 else if k = 3 then timeout_page else if k \<le> 5 then rows_page
      else count_page 0)"

definition failing_query_web :: web where
  "failing_query_web k u = (if k = 0 then timeout_page else count_page 0)"

definition q12 :: string where
  "q12 = ''q=annual%2520report&dateRange=custom&startdt=2024-01-01&enddt=2024-01-02&page=1''"

definition q34 :: string where
  "q34 = ''q=annual%2520report&dateRange=custom&startdt=2024-01-03&enddt=2024-01-04&page=1''"

definition quiet_web :: web where
  "quiet_web k u = count_page 0"

definition after_first_run :: state where
  "after_first_run = \<lparr>search_requests = [q12], history = [BASE_URL @ q12, BASE_URL @ q12],
                       results_csv = writeheader\<rparr>"

definition after_second_partition :: state where
  "after_second_partition = \<lparr>search_requests = [q12, q34],
     history = [BASE_URL @ q12, BASE_URL @ q12, BASE_URL @ q34], results_csv = writeheader\<rparr>"

definition parsed_row :: filing_record where
  "parsed_row = (case parse_table_row row_cik_1018840 of Inr r \<Rightarrow> r)"

text \<open>Criteria that differ in their keywords and are encoded alike.\<close>

definition crit_joined :: criteria where
  "crit_joined = \<lparr>search_keywords = [''annual report''], entity_identifier = Some [],
                   filing_category = None, exact_search = False\<rparr>"

definition crit_exact :: criteria where
  "crit_exact = \<lparr>search_keywords = [''annual report''], entity_identifier = None,
                  filing_category = None, exact_search = True\<rparr>"

definition crit_quoted :: criteria where
  "crit_quoted = \<lparr>search_keywords = [[CHR 0x22] @ ''annual report'' @ [CHR 0x22]],
                   entity_identifier = None, filing_category = None, exact_search = False\<rparr>"

text \<open>The query for 1 to 4 January, and the states after its fetch and after the
  fetch for 1 to 2 January.\<close>

definition q14 :: string where
  "q14 = ''q=annual%2520report&dateRange=custom&startdt=2024-01-01&enddt=2024-01-04&page=1''"

definition after_q14 :: state where
  "after_q14 = \<lparr>search_requests = [], history = [BASE_URL @ q14], results_csv = []\<rparr>"

definition after_q14_q12 :: state where
  "after_q14_q12 = \<lparr>search_requests = [], history = [BASE_URL @ q14, BASE_URL @ q12], results_csv = []\<rparr>"

text \<open>A source whose first fetch shows a saturated count, whose second fetch raises an
  IndexError and whose later fetches show 5.\<close>

definition index_error_page :: page where
  "index_error_page = \<lparr>fetch_error = Some IndexError, result_count = Inl OtherException,
                        table = Inl OtherException\<rparr>"

definition skipping_web :: web where
  "skipping_web k u = (if k = 0 then count_page 12000 else if k = 1 then index_error_page else count_page 5)"

text \<open>A source whose first fetch raises a ValueError and whose later fetches show 5.\<close>

definition value_error_page :: page where
  "value_error_page = \<lparr>fetch_error = Some ValueError, result_count = Inl OtherException,
                        table = Inl OtherException\<rparr>"

definition value_error_web :: web where
  "value_error_web k u = (if k = 0 then value_error_page else count_page 5)"

text \<open>The header line, and the line and the values of the sample record.\<close>

abbreviation header_line :: string where
  "header_line \<equiv> ''filing_type,filed_at,reporting_for,entity_name,company_cik,place_of_business,incorporated_location,file_num,film_num,file_num_search_url,filing_details_url,filing_document_url''"

abbreviation sample_line :: string where
  "sample_line \<equiv> ''10-K,2024-04-01,2024-02-03,ABERCROMBIE & FITCH CO /DE/ (ANF),0001018840,'' @ [CHR 0x22] @ ''New Albany, OH'' @ [CHR 0x22] @ '',Delaware,001-12345,,https://www.sec.gov/cgi-bin/browse-edgar?action=getcompany&filenum=001-12345,https://www.sec.gov/Archives/edgar/data/1018840/000101884024000012/0001018840-24-000012-index.html,https://www.sec.gov/Archives/edgar/data/1018840/000101884024000012/anf-20240203.htm''"

abbreviation sample_values :: "string list" where
  "sample_values \<equiv> [''10-K'', ''2024-04-01'', ''2024-02-03'', ''ABERCROMBIE & FITCH CO /DE/ (ANF)'', ''0001018840'',
     ''New Albany, OH'', ''Delaware'', ''001-12345'', [],
     ''https://www.sec.gov/cgi-bin/browse-edgar?action=getcompany&filenum=001-12345'',
     ''https://www.sec.gov/Archives/edgar/data/1018840/000101884024000012/0001018840-24-000012-index.html'',
     ''https://www.sec.gov/Archives/edgar/data/1018840/000101884024000012/anf-20240203.htm'']"

section \<open>The partitioner, case by case\<close>

lemma fetch_first_history:
  "fetch_first_page_results_number w url st = (st1, r) \<Longrightarrow>
     st1 = st\<lparr>history := history st @ [url]\<rparr>"
  by (auto simp: fetch_first_page_results_number_def fetch_page_def split: option.splits)

lemma generate_cases:
  assumes "generate_search_requests (Suc depth) w c s e st = Some (st', r)"
  obtains
    (args_error) ex where "generate_request_args c s e 1 = Inl ex" "st' = st" "r = Some ex"
  | (fetch_error) args ex where "generate_request_args c s e 1 = Inr args"
      "fetch_first_page_results_number w (BASE_URL @ args) st = (st', Inl ex)"
      "ex \<noteq> ValueError" "r = Some ex"
  | (accepted) args st1 n where "generate_request_args c s e 1 = Inr args"
      "fetch_first_page_results_number w (BASE_URL @ args) st = (st1, Inr n)" "n < 10000"
      "st' = st1\<lparr>search_requests := search_requests st1 @ [args]\<rparr>" "r = None"
  | (split) args st1 fetched where "generate_request_args c s e 1 = Inr args"
      "fetch_first_page_results_number w (BASE_URL @ args) st = (st1, fetched)"
      "fetched = Inl ValueError \<or> (\<exists>n. fetched = Inr n \<and> 10000 \<le> n)"
      "split_loop depth w c 0
         (split_date_range_in_n s e (min (date_diff_days e s) DEFAULT_BATCHES_NUMBER)) st1 = Some (st', r)"
proof (cases "generate_request_args c s e 1")
  case (Inl ex)
  with assms args_error show ?thesis by simp
next
  case (Inr args)
  obtain st1 fetched where f: "fetch_first_page_results_number w (BASE_URL @ args) st = (st1, fetched)"
    by (cases "fetch_first_page_results_number w (BASE_URL @ args) st")
  show ?thesis
  proof (cases fetched)
    case (Inl ex)
    show ?thesis
    proof (cases "ex = ValueError")
      case True
      with assms Inr f Inl show ?thesis by (intro split[of args st1 fetched]) (simp_all add: Let_def)
    next
      case False
      with assms Inr f Inl show ?thesis
        by (intro fetch_error[of args ex]) (cases ex; simp add: Let_def)+
    qed
  next
    case n: (Inr n)
    show ?thesis
    proof (cases "n < 10000")
      case True
      with assms Inr f n show ?thesis by (intro accepted[of args st1 n]) (simp_all add: Let_def)
    next
      case False
      with assms Inr f n show ?thesis by (intro split[of args st1 fetched]) (simp_all add: Let_def)
    qed
  qed
qed

lemma split_loop_cases:
  assumes "split_loop depth w c i (d # rest) st = Some (st', r)"
  obtains
    (start_error) ex where "(if i = 0 then Inr d else date_add_days d 1) = Inl ex"
      "ex \<noteq> IndexError" "st' = st" "r = Some ex"
  | (start_index_error) "(if i = 0 then Inr d else date_add_days d 1) = Inl IndexError"
      "split_loop depth w c (i + 1) rest st = Some (st', r)"
  | (no_end) "rest = []" "st' = st" "r = None"
  | (skipped) start e later st2 r2 where "(if i = 0 then Inr d else date_add_days d 1) = Inr start"
      "rest = e # later" "generate_search_requests depth w c start e st = Some (st2, r2)"
      "r2 = None \<or> r2 = Some IndexError"
      "split_loop depth w c (i + 1) rest st2 = Some (st', r)"
  | (raised) start e later ex where "(if i = 0 then Inr d else date_add_days d 1) = Inr start"
      "rest = e # later" "generate_search_requests depth w c start e st = Some (st', Some ex)"
      "ex \<noteq> IndexError" "r = Some ex"
proof (cases "if i = 0 then Inr d else date_add_days d 1")
  case (Inl ex)
  show ?thesis
  proof (cases "ex = IndexError")
    case True
    with assms Inl show ?thesis by (intro start_index_error) simp_all
  next
    case False
    with assms Inl show ?thesis by (intro start_error[of ex]) simp_all
  qed
next
  case st: (Inr start)
  show ?thesis
  proof (cases rest)
    case Nil
    with assms st show ?thesis by (intro no_end) simp_all
  next
    case (Cons e later)
    show ?thesis
    proof (cases "generate_search_requests depth w c start e st")
      case None
      with assms st Cons show ?thesis by simp
    next
      case (Some res)
      obtain st2 r2 where res: "res = (st2, r2)" by (cases res)
      show ?thesis
      proof (cases "r2 = None \<or> r2 = Some IndexError")
        case True
        with assms st Cons Some res show ?thesis
          by (intro skipped[of start e later st2 r2]) auto
      next
        case False
        then obtain ex where "r2 = Some ex" "ex \<noteq> IndexError" by (cases r2) auto
        with assms st Cons Some res show ?thesis
          by (intro raised[of start e later ex]) auto
      qed
    qed
  qed
qed


lemma grows_refl: "grows st st"
  by (simp add: grows_def)

lemma grows_trans: "grows a b \<Longrightarrow> grows b c \<Longrightarrow> grows a c"
  by (auto simp: grows_def)

lemma grows_fetch: "fetch_first_page_results_number w url st = (st1, r) \<Longrightarrow> grows st st1"
  by (drule fetch_first_history) (simp add: grows_def)

lemma grows_append: "grows st (st\<lparr>search_requests := search_requests st @ [q]\<rparr>)"
  by (simp add: grows_def)

lemma split_loop_grows:
  assumes gen: "\<And>s e st st' r. generate_search_requests depth w c s e st = Some (st', r) \<Longrightarrow> grows st st'"
  shows "split_loop depth w c i ds st = Some (st', r) \<Longrightarrow> grows st st'"
proof (induction ds arbitrary: i st)
  case Nil
  then show ?case by (simp add: grows_refl)
next
  case (Cons d rest)
  from Cons.prems show ?case
  proof (cases rule: split_loop_cases)
    case (skipped start e later st2 r2)
    from gen[OF skipped(3)] Cons.IH[OF skipped(5)] show ?thesis by (rule grows_trans)
  next
    case (raised start e later ex)
    from gen[OF raised(3)] show ?thesis .
  qed (auto simp: grows_refl intro: Cons.IH)
qed

lemma generate_grows:
  "generate_search_requests depth w c s e st = Some (st', r) \<Longrightarrow> grows st st'"
proof (induction depth arbitrary: s e st st' r)
  case 0
  then show ?case by simp
next
  case (Suc depth)
  from Suc.prems show ?case
  proof (cases rule: generate_cases)
    case (args_error ex)
    then show ?thesis by (simp add: grows_refl)
  next
    case (fetch_error args ex)
    then show ?thesis by (auto dest: grows_fetch)
  next
    case (accepted args st1 n)
    then show ?thesis by (auto dest!: grows_fetch intro: grows_trans grows_append)
  next
    case (split args st1 fetched)
    from split(2) have "grows st st1" by (rule grows_fetch)
    moreover have "grows st1 st'" using Suc.IH split(4) by (rule split_loop_grows)
    ultimately show ?thesis by (rule grows_trans)
  qed
qed


lemma fetch_first_eq:
  "fetch_first_page_results_number w url st =
     (st\<lparr>history := history st @ [url]\<rparr>, first_page_outcome (w (length (history st)) url))"
  by (simp add: fetch_first_page_results_number_def fetch_page_def first_page_outcome_def
      split: option.splits)

lemma split_loop_grows':
  "split_loop depth w c i ds st = Some (st', r) \<Longrightarrow> grows st st'"
  using generate_grows by (rule split_loop_grows)

lemma grows_nth:
  "grows st st' \<Longrightarrow> k < length (history st) \<Longrightarrow> history st' ! k = history st ! k"
  by (auto simp: grows_def nth_append)

lemma grows_length: "grows st st' \<Longrightarrow> length (history st) \<le> length (history st')"
  by (auto simp: grows_def)

lemma propagates_same: "history st' = history st \<Longrightarrow> propagates w st st' r"
  by (simp add: propagates_def)

lemma propagates_seq:
  assumes a: "propagates w st st2 r2" and b: "propagates w st2 st' r"
    and g: "grows st2 st'" and r2: "r2 = None \<or> r2 = Some IndexError"
  shows "propagates w st st' r"
  unfolding propagates_def
proof (intro allI impI)
  fix k ex
  assume k: "length (history st) \<le> k" "k < length (history st')"
    and o: "first_page_outcome (w k (history st' ! k)) = Inl ex" and ex: "ex \<noteq> ValueError" "ex \<noteq> IndexError"
  show "r = Some ex \<and> Suc k = length (history st')"
  proof (cases "k < length (history st2)")
    case True
    with g have "history st' ! k = history st2 ! k" by (rule grows_nth)
    with a k(1) True o ex have "r2 = Some ex" by (auto simp: propagates_def)
    with r2 ex show ?thesis by auto
  next
    case False
    with b k(2) o ex show ?thesis by (auto simp: propagates_def not_less)
  qed
qed

lemma split_loop_propagates:
  assumes gen: "\<And>s e st st' r. generate_search_requests depth w c s e st = Some (st', r)
     \<Longrightarrow> propagates w st st' r"
  shows "split_loop depth w c i ds st = Some (st', r) \<Longrightarrow> propagates w st st' r"
proof (induction ds arbitrary: i st)
  case Nil
  then show ?case by (simp add: propagates_same)
next
  case (Cons d rest)
  from Cons.prems show ?case
  proof (cases rule: split_loop_cases)
    case (skipped start e later st2 r2)
    from gen[OF skipped(3)] Cons.IH[OF skipped(5)] split_loop_grows'[OF skipped(5)] skipped(4)
    show ?thesis by (rule propagates_seq)
  next
    case (raised start e later ex)
    from gen[OF raised(3)] raised(5) show ?thesis by simp
  qed (auto simp: propagates_same intro: Cons.IH)
qed

lemma generate_propagates:
  "generate_search_requests depth w c s e st = Some (st', r) \<Longrightarrow> propagates w st st' r"
proof (induction depth arbitrary: s e st st' r)
  case 0
  then show ?case by simp
next
  case (Suc depth)
  from Suc.prems show ?case
  proof (cases rule: generate_cases)
    case (args_error ex)
    then show ?thesis by (simp add: propagates_same)
  next
    case (fetch_error args ex)
    then show ?thesis
      by (auto simp: fetch_first_eq propagates_def less_Suc_eq)
  next
    case (accepted args st1 n)
    then show ?thesis
      by (auto simp: fetch_first_eq propagates_def less_Suc_eq)
  next
    case (split args st1 fetched)
    have l: "propagates w st1 st' r" using Suc.IH split(4) by (rule split_loop_propagates)
    have g: "grows st1 st'" using split(4) by (rule split_loop_grows')
    from split(2) have st1: "st1 = st\<lparr>history := history st @ [BASE_URL @ args]\<rparr>"
      and f: "fetched = first_page_outcome (w (length (history st)) (BASE_URL @ args))"
      by (simp_all add: fetch_first_eq)
    show ?thesis
      unfolding propagates_def
    proof (intro allI impI)
      fix k ex
      assume k: "length (history st) \<le> k" "k < length (history st')"
        and o: "first_page_outcome (w k (history st' ! k)) = Inl ex"
        and ex: "ex \<noteq> ValueError" "ex \<noteq> IndexError"
      show "r = Some ex \<and> Suc k = length (history st')"
      proof (cases "k = length (history st)")
        case True
        from g have "history st' ! k = history st1 ! k" by (rule grows_nth) (simp add: st1 True)
        with True st1 have "history st' ! k = BASE_URL @ args" by simp
        with o f True split(3) ex show ?thesis by auto
      next
        case False
        with k(1) have "length (history st1) \<le> k" by (simp add: st1)
        with l k(2) o ex show ?thesis by (auto simp: propagates_def)
      qed
    qed
  qed
qed

lemma saturated_first_page:
  "(case first_page_outcome (assume_saturated p) of Inl ValueError \<Rightarrow> Inr 10000 | other \<Rightarrow> other)
     = (case first_page_outcome p of Inl ValueError \<Rightarrow> Inr 10000 | other \<Rightarrow> other)"
  by (auto simp: first_page_outcome_def assume_saturated_def parse_number_of_results_def
      split: option.splits sum.splits exn.splits)

lemma split_loop_saturated:
  assumes gen: "\<And>s e st. generate_search_requests depth w c s e st
     = generate_search_requests depth (\<lambda>k u. assume_saturated (w k u)) c s e st"
  shows "split_loop depth w c i ds st = split_loop depth (\<lambda>k u. assume_saturated (w k u)) c i ds st"
proof (induction ds arbitrary: i st)
  case Nil
  show ?case by simp
next
  case (Cons d rest)
  show ?case
    by (simp add: gen[symmetric] Cons.IH[symmetric] split: sum.splits list.splits option.splits)
qed

lemma generate_saturated:
  "generate_search_requests depth w c s e st
     = generate_search_requests depth (\<lambda>k u. assume_saturated (w k u)) c s e st"
proof (induction depth arbitrary: s e st)
  case 0
  show ?case by simp
next
  case (Suc depth)
  have l: "\<And>i ds st. split_loop depth w c i ds st
     = split_loop depth (\<lambda>k u. assume_saturated (w k u)) c i ds st"
    using Suc.IH by (rule split_loop_saturated)
  show ?case
    by (simp add: fetch_first_eq saturated_first_page l Let_def split: sum.splits)
qed

section \<open>Runs on concrete inputs\<close>

lemma args12: "generate_request_args crit0 (jan 1) (jan 2) 1
   = Inr ''q=annual%2520report&dateRange=custom&startdt=2024-01-01&enddt=2024-01-02&page=1''"
  by code_simp

lemma args13: "generate_request_args crit0 (jan 1) (jan 3) 1
   = Inr ''q=annual%2520report&dateRange=custom&startdt=2024-01-01&enddt=2024-01-03&page=1''"
  by code_simp

lemma split12: "split_date_range_in_n (jan 1) (jan 2) (min (date_diff_days (jan 2) (jan 1)) DEFAULT_BATCHES_NUMBER) = [jan 1, jan 2]"
  by code_simp

lemma split13: "split_date_range_in_n (jan 1) (jan 3) (min (date_diff_days (jan 3) (jan 1)) DEFAULT_BATCHES_NUMBER) = [jan 1, jan 2, jan 3]"
  by code_simp

lemma busy12: "busy_days_web k (BASE_URL @ ''q=annual%2520report&dateRange=custom&startdt=2024-01-01&enddt=2024-01-02&page=1'') = count_page 12000"
  unfolding busy_days_web_def by code_simp

lemma busy13: "busy_days_web k (BASE_URL @ ''q=annual%2520report&dateRange=custom&startdt=2024-01-01&enddt=2024-01-03&page=1'') = count_page 12000"
  unfolding busy_days_web_def by code_simp

lemma fetch_count:
  "w (length (history st)) url = count_page n \<Longrightarrow>
   fetch_first_page_results_number w url st = (st\<lparr>history := history st @ [url]\<rparr>, Inr n)"
  by (simp add: fetch_first_page_results_number_def fetch_page_def count_page_def parse_number_of_results_def)

lemma two_days_saturated_never_returns:
  "generate_search_requests depth saturated_web crit0 (jan 1) (jan 2) st = None"
proof (induction depth arbitrary: st)
  case 0
  show ?case by simp
next
  case (Suc depth)
  have f: "\<And>url. fetch_first_page_results_number saturated_web url st
      = (st\<lparr>history := history st @ [url]\<rparr>, Inr 10000)"
    by (rule fetch_count) (simp add: saturated_web_def)
  show ?case
    by (simp add: args12 f split12 Suc.IH)
qed

lemma two_busy_days_never_return:
  "generate_search_requests depth busy_days_web crit0 (jan 1) (jan 2) st = None"
proof (induction depth arbitrary: st)
  case 0
  show ?case by simp
next
  case (Suc depth)
  have f: "\<And>st. fetch_first_page_results_number busy_days_web (BASE_URL @ ''q=annual%2520report&dateRange=custom&startdt=2024-01-01&enddt=2024-01-02&page=1'') st
      = (st\<lparr>history := history st @ [BASE_URL @ ''q=annual%2520report&dateRange=custom&startdt=2024-01-01&enddt=2024-01-02&page=1'']\<rparr>, Inr 12000)"
    by (rule fetch_count) (rule busy12)
  show ?case
    by (simp add: args12 f split12 Suc.IH)
qed

lemma three_days: "generate_search_requests depth busy_days_web crit0 (jan 1) (jan 3) st = None"
proof (cases depth)
  case 0
  then show ?thesis by simp
next
  case (Suc d)
  have f: "\<And>st. fetch_first_page_results_number busy_days_web (BASE_URL @ ''q=annual%2520report&dateRange=custom&startdt=2024-01-01&enddt=2024-01-03&page=1'') st
      = (st\<lparr>history := history st @ [BASE_URL @ ''q=annual%2520report&dateRange=custom&startdt=2024-01-01&enddt=2024-01-03&page=1'']\<rparr>, Inr 12000)"
    by (rule fetch_count) (rule busy13)
  from Suc show ?thesis
    by (simp add: args13 f split13 two_busy_days_never_return)
qed


section \<open>Claims about the partitioner\<close>

lemma busy_day_counts:
  "busy_days_web k (day_url (jan 1)) = count_page 6000"
  "busy_days_web k (day_url (jan 2)) = count_page 6000"
  "busy_days_web k (day_url (jan 3)) = count_page 6000"
  by (simp_all add: busy_days_web_def)

text \<open>
  Claim C1: for every requested interval and every sequence of counts, the intervals
  of the finalized queries are pairwise disjoint and their union is the requested
  interval, unless a single day is over the cap. At this input no single day is over
  the cap (each of the three days has 6000 matches), yet the partitioner never
  returns: whatever bound is put on the depth of its calls, the bound is reached. It
  asks for 1 to 2 January again and again, and no finalized list covering 1 to
  3 January comes out.
\<close>

theorem busy_days_never_partitioned:
  "busy_days_web k (day_url (jan 1)) = count_page 6000
   \<and> busy_days_web k (day_url (jan 2)) = count_page 6000
   \<and> busy_days_web k (day_url (jan 3)) = count_page 6000
   \<and> generate_search_requests depth busy_days_web crit0 (jan 1) (jan 3) init_state = None"
  by (simp add: busy_day_counts three_days)

text \<open>
  Claim C2: the partitioner terminates for every sequence of saturated counts, each
  split giving strictly shorter sub-intervals. For the two days 1 to 2 January 2024
  the interval has length 1, the number of batches is 1, and the only sub-interval is
  the interval itself; against a source that always reports the cap the partitioner
  never returns, whatever the bound on the depth of its calls.
\<close>

theorem two_day_split_is_the_interval_itself:
  "min (date_diff_days (jan 2) (jan 1)) DEFAULT_BATCHES_NUMBER = 1
   \<and> split_date_range_in_n (jan 1) (jan 2) 1 = [jan 1, jan 2]
   \<and> generate_search_requests depth saturated_web crit0 (jan 1) (jan 2) init_state = None"
proof -
  have "min (date_diff_days (jan 2) (jan 1)) DEFAULT_BATCHES_NUMBER = 1" by code_simp
  moreover have "split_date_range_in_n (jan 1) (jan 2) 1 = [jan 1, jan 2]" by code_simp
  ultimately show ?thesis by (simp add: two_days_saturated_never_returns)
qed

text \<open>
  Claim C4: when the count of an interval's first page cannot be parsed although the
  page was fetched, the partitioner goes on exactly as for the count 10000: it splits
  the interval, and the whole run is the run against the source that shows 10000 at
  every such page.
\<close>

theorem unreadable_count_is_read_as_cap:
  assumes "generate_request_args c s e 1 = Inr args"
    and "fetch_error (w (length (history st)) (BASE_URL @ args)) = None"
    and "result_count (w (length (history st)) (BASE_URL @ args)) = Inl ValueError"
  shows "generate_search_requests (Suc depth) w c s e st =
           split_loop depth w c 0
             (split_date_range_in_n s e (min (date_diff_days e s) DEFAULT_BATCHES_NUMBER))
             (st\<lparr>history := history st @ [BASE_URL @ args]\<rparr>)
         \<and> generate_search_requests (Suc depth) w c s e st =
           generate_search_requests (Suc depth) (\<lambda>k u. assume_saturated (w k u)) c s e st"
proof -
  from assms(2,3) have "first_page_outcome (w (length (history st)) (BASE_URL @ args)) = Inl ValueError"
    by (simp add: first_page_outcome_def parse_number_of_results_def)
  with assms(1) have "generate_search_requests (Suc depth) w c s e st =
           split_loop depth w c 0
             (split_date_range_in_n s e (min (date_diff_days e s) DEFAULT_BATCHES_NUMBER))
             (st\<lparr>history := history st @ [BASE_URL @ args]\<rparr>)"
    by (simp add: fetch_first_eq Let_def)
  then show ?thesis using generate_saturated[of "Suc depth" w c s e st] by simp
qed

lemma args14: "generate_request_args crit0 (jan 1) (jan 4) 1
   = Inr ''q=annual%2520report&dateRange=custom&startdt=2024-01-01&enddt=2024-01-04&page=1''"
  by code_simp

lemma unreadable_run:
  "generate_search_requests (Suc 1) unreadable_web crit0 (jan 1) (jan 4) init_state =
     Some (\<lparr>search_requests =
              [''q=annual%2520report&dateRange=custom&startdt=2024-01-01&enddt=2024-01-02&page=1'',
               ''q=annual%2520report&dateRange=custom&startdt=2024-01-03&enddt=2024-01-04&page=1''],
            history =
              [BASE_URL @ ''q=annual%2520report&dateRange=custom&startdt=2024-01-01&enddt=2024-01-04&page=1'',
               BASE_URL @ ''q=annual%2520report&dateRange=custom&startdt=2024-01-01&enddt=2024-01-02&page=1'',
               BASE_URL @ ''q=annual%2520report&dateRange=custom&startdt=2024-01-03&enddt=2024-01-04&page=1''],
            results_csv = []\<rparr>, None)"
  by code_simp

theorem unreadable_count_is_read_as_cap_witness:
  "generate_request_args crit0 (jan 1) (jan 4) 1
     = Inr ''q=annual%2520report&dateRange=custom&startdt=2024-01-01&enddt=2024-01-04&page=1''
   \<and> fetch_error (unreadable_web (length (history init_state))
        (BASE_URL @ ''q=annual%2520report&dateRange=custom&startdt=2024-01-01&enddt=2024-01-04&page=1'')) = None
   \<and> result_count (unreadable_web (length (history init_state))
        (BASE_URL @ ''q=annual%2520report&dateRange=custom&startdt=2024-01-01&enddt=2024-01-04&page=1''))
       = Inl ValueError
   \<and> generate_search_requests (Suc 1) unreadable_web crit0 (jan 1) (jan 4) init_state =
       split_loop 1 unreadable_web crit0 0
        (split_date_range_in_n (jan 1) (jan 4) (min (date_diff_days (jan 4) (jan 1)) DEFAULT_BATCHES_NUMBER))
        (init_state\<lparr>history := history init_state @
           [BASE_URL @ ''q=annual%2520report&dateRange=custom&startdt=2024-01-01&enddt=2024-01-04&page=1'']\<rparr>)
   \<and> generate_search_requests (Suc 1) unreadable_web crit0 (jan 1) (jan 4) init_state =
       generate_search_requests (Suc 1) (\<lambda>k u. assume_saturated (unreadable_web k u)) crit0 (jan 1) (jan 4)
         init_state
   \<and> generate_search_requests (Suc 1) unreadable_web crit0 (jan 1) (jan 4) init_state =
     Some (\<lparr>search_requests =
              [''q=annual%2520report&dateRange=custom&startdt=2024-01-01&enddt=2024-01-02&page=1'',
               ''q=annual%2520report&dateRange=custom&startdt=2024-01-03&enddt=2024-01-04&page=1''],
            history =
              [BASE_URL @ ''q=annual%2520report&dateRange=custom&startdt=2024-01-01&enddt=2024-01-04&page=1'',
               BASE_URL @ ''q=annual%2520report&dateRange=custom&startdt=2024-01-01&enddt=2024-01-02&page=1'',
               BASE_URL @ ''q=annual%2520report&dateRange=custom&startdt=2024-01-03&enddt=2024-01-04&page=1''],
            results_csv = []\<rparr>, None)"
proof -
  have h2: "fetch_error (unreadable_web (length (history init_state))
        (BASE_URL @ ''q=annual%2520report&dateRange=custom&startdt=2024-01-01&enddt=2024-01-04&page=1'')) = None"
    by (simp add: unreadable_web_def unreadable_page_def init_state_def)
  have h3: "result_count (unreadable_web (length (history init_state))
        (BASE_URL @ ''q=annual%2520report&dateRange=custom&startdt=2024-01-01&enddt=2024-01-04&page=1''))
       = Inl ValueError"
    by (simp add: unreadable_web_def unreadable_page_def init_state_def)
  note c = unreadable_count_is_read_as_cap[of crit0 "jan 1" "jan 4" _ unreadable_web init_state 1,
      OF args14 h2 h3]
  show ?thesis using args14 h2 h3 c unreadable_run by blast
qed

lemma breaking_run:
  "generate_search_requests 2 breaking_web crit0 (jan 1) (jan 4) init_state =
     Some (\<lparr>search_requests = [],
            history =
              [BASE_URL @ ''q=annual%2520report&dateRange=custom&startdt=2024-01-01&enddt=2024-01-04&page=1'',
               BASE_URL @ ''q=annual%2520report&dateRange=custom&startdt=2024-01-01&enddt=2024-01-02&page=1''],
            results_csv = []\<rparr>, Some OtherException)"
  by code_simp

text \<open>
  Claim C6: during partitioning, a fetch failure of a sub-interval that is not a
  verification timeout is caught, the sub-interval is skipped with a warning, and the
  remaining siblings are partitioned. Here 1 to 4 January is saturated and the fetch
  for the first half, 1 to 2 January, raises an unexpected exception: the partitioner
  raises it to its caller, and the second half, 3 to 4 January, is never fetched.
\<close>

theorem sibling_not_partitioned_after_failure:
  "generate_search_requests 2 breaking_web crit0 (jan 1) (jan 4) init_state =
     Some (\<lparr>search_requests = [],
            history =
              [BASE_URL @ ''q=annual%2520report&dateRange=custom&startdt=2024-01-01&enddt=2024-01-04&page=1'',
               BASE_URL @ ''q=annual%2520report&dateRange=custom&startdt=2024-01-01&enddt=2024-01-02&page=1''],
            results_csv = []\<rparr>, Some OtherException)"
  by (rule breaking_run)

lemma own_fetch_failure:
  assumes "generate_request_args c s e 1 = Inr args"
    and "first_page_outcome (w (length (history st)) (BASE_URL @ args)) = Inl ex"
    and "ex \<noteq> ValueError"
  shows "generate_search_requests (Suc depth) w c s e st =
           Some (st\<lparr>history := history st @ [BASE_URL @ args]\<rparr>, Some ex)"
  using assms by (cases ex) (simp_all add: fetch_first_eq)

lemma own_value_error:
  assumes "generate_request_args c s e 1 = Inr args"
    and "first_page_outcome (w (length (history st)) (BASE_URL @ args)) = Inl ValueError"
  shows "generate_search_requests (Suc depth) w c s e st =
           split_loop depth w c 0
             (split_date_range_in_n s e (min (date_diff_days e s) DEFAULT_BATCHES_NUMBER))
             (st\<lparr>history := history st @ [BASE_URL @ args]\<rparr>)"
  using assms by (simp add: fetch_first_eq Let_def)

lemma own_saturated:
  assumes "generate_request_args c s e 1 = Inr args"
    and "first_page_outcome (w (length (history st)) (BASE_URL @ args)) = Inr n"
    and "10000 \<le> n"
  shows "generate_search_requests (Suc depth) w c s e st =
           split_loop depth w c 0
             (split_date_range_in_n s e (min (date_diff_days e s) DEFAULT_BATCHES_NUMBER))
             (st\<lparr>history := history st @ [BASE_URL @ args]\<rparr>)"
  using assms by (simp add: fetch_first_eq Let_def)

lemma loop_failure:
  assumes "(if i = 0 then Inr d else date_add_days d 1) = Inr start"
    and "generate_search_requests depth w c start end st = Some (st', Some ex)"
    and "ex \<noteq> IndexError"
  shows "split_loop depth w c i (d # end # later) st = Some (st', Some ex)"
  using assms by (simp split: if_splits)

lemma loop_index_error:
  assumes "(if i = 0 then Inr d else date_add_days d 1) = Inr start"
    and "generate_search_requests depth w c start end st = Some (st', Some IndexError)"
  shows "split_loop depth w c i (d # end # later) st = split_loop depth w c (i + 1) (end # later) st'"
  using assms by (simp split: if_splits)


lemma split14: "split_date_range_in_n (jan 1) (jan 4) (min (date_diff_days (jan 4) (jan 1)) DEFAULT_BATCHES_NUMBER)
   = [jan 1, jan 2, jan 4]"
  by code_simp

lemma skipping_rest:
  "split_loop 1 skipping_web crit0 1 [jan 2, jan 4] after_q14_q12 =
     Some (\<lparr>search_requests = [q34], history = [BASE_URL @ q14, BASE_URL @ q12, BASE_URL @ q34],
            results_csv = []\<rparr>, None)"
  by code_simp

lemma value_error_rest:
  "split_loop 1 value_error_web crit0 0 [jan 1, jan 2, jan 4] after_q14 =
     Some (\<lparr>search_requests = [q12, q34], history = [BASE_URL @ q14, BASE_URL @ q12, BASE_URL @ q34],
            results_csv = []\<rparr>, None)"
  by code_simp

text \<open>
  Claim C6, amended: of the failures of a sub-interval's first-page fetch, the loop
  over the sub-intervals catches the IndexError only, and then goes on with the next
  sibling. A ValueError, raised by the fetch or by the count reader, is caught by the
  call for that interval and read as the count 10000, so the interval is split. Any
  other failure, a verification timeout as well as an unexpected exception, is not
  caught: the call whose fetch fails returns it, the loop that receives it from a
  sub-interval returns it without partitioning the remaining siblings, and so does the
  call for an interval whose first sub-interval fails. In every run that returns, the
  failing fetch is the last one made and its exception is the result.
\<close>

theorem fetch_failure_ends_partitioning:
  "(generate_request_args c s e 1 = Inr args \<longrightarrow>
      first_page_outcome (w (length (history st)) (BASE_URL @ args)) = Inl ex \<longrightarrow> ex \<noteq> ValueError \<longrightarrow>
      generate_search_requests (Suc depth) w c s e st =
        Some (st\<lparr>history := history st @ [BASE_URL @ args]\<rparr>, Some ex))
   \<and> ((if i = 0 then Inr d else date_add_days d 1) = Inr s2 \<longrightarrow>
      generate_search_requests depth w c s2 e2 st = Some (st', Some ex) \<longrightarrow> ex \<noteq> IndexError \<longrightarrow>
      split_loop depth w c i (d # e2 # later) st = Some (st', Some ex))
   \<and> (generate_request_args c s e 1 = Inr args \<longrightarrow>
      first_page_outcome (w (length (history st)) (BASE_URL @ args)) = Inr n \<longrightarrow> 10000 \<le> n \<longrightarrow>
      split_date_range_in_n s e (min (date_diff_days e s) DEFAULT_BATCHES_NUMBER) = s1 # e1 # later \<longrightarrow>
      generate_request_args c s1 e1 1 = Inr args1 \<longrightarrow>
      first_page_outcome (w (Suc (length (history st))) (BASE_URL @ args1)) = Inl ex \<longrightarrow>
      ex \<noteq> ValueError \<longrightarrow> ex \<noteq> IndexError \<longrightarrow>
      generate_search_requests (Suc (Suc depth)) w c s e st =
        Some (st\<lparr>history := history st @ [BASE_URL @ args, BASE_URL @ args1]\<rparr>, Some ex))
   \<and> ((if i = 0 then Inr d else date_add_days d 1) = Inr s2 \<longrightarrow>
      generate_search_requests depth w c s2 e2 st = Some (st', Some IndexError) \<longrightarrow>
      split_loop depth w c i (d # e2 # later) st = split_loop depth w c (i + 1) (e2 # later) st')
   \<and> (generate_request_args c s e 1 = Inr args \<longrightarrow>
      first_page_outcome (w (length (history st)) (BASE_URL @ args)) = Inl ValueError \<longrightarrow>
      generate_search_requests (Suc depth) w c s e st =
        split_loop depth w c 0
          (split_date_range_in_n s e (min (date_diff_days e s) DEFAULT_BATCHES_NUMBER))
          (st\<lparr>history := history st @ [BASE_URL @ args]\<rparr>))
   \<and> (generate_search_requests depth w c s e st = Some (st', r) \<longrightarrow>
      length (history st) \<le> k \<longrightarrow> k < length (history st') \<longrightarrow>
      first_page_outcome (w k (history st' ! k)) = Inl ex \<longrightarrow> ex \<noteq> ValueError \<longrightarrow> ex \<noteq> IndexError \<longrightarrow>
      r = Some ex \<and> Suc k = length (history st'))"
proof (intro conjI impI)
  assume "generate_request_args c s e 1 = Inr args"
    and "first_page_outcome (w (length (history st)) (BASE_URL @ args)) = Inl ex" and "ex \<noteq> ValueError"
  then show "generate_search_requests (Suc depth) w c s e st =
        Some (st\<lparr>history := history st @ [BASE_URL @ args]\<rparr>, Some ex)"
    by (rule own_fetch_failure)
next
  assume "(if i = 0 then Inr d else date_add_days d 1) = Inr s2"
    and "generate_search_requests depth w c s2 e2 st = Some (st', Some ex)" and "ex \<noteq> IndexError"
  then show "split_loop depth w c i (d # e2 # later) st = Some (st', Some ex)"
    by (rule loop_failure)
next
  assume a: "generate_request_args c s e 1 = Inr args"
    "first_page_outcome (w (length (history st)) (BASE_URL @ args)) = Inr n" "10000 \<le> n"
    and d: "split_date_range_in_n s e (min (date_diff_days e s) DEFAULT_BATCHES_NUMBER) = s1 # e1 # later"
    and b: "generate_request_args c s1 e1 1 = Inr args1"
    and f: "first_page_outcome (w (Suc (length (history st))) (BASE_URL @ args1)) = Inl ex"
    and x: "ex \<noteq> ValueError" "ex \<noteq> IndexError"
  let ?st1 = "st\<lparr>history := history st @ [BASE_URL @ args]\<rparr>"
  have f1: "first_page_outcome (w (length (history ?st1)) (BASE_URL @ args1)) = Inl ex"
    using f by simp
  from own_fetch_failure[of c s1 e1 args1 w ?st1 ex depth] b f1 x(1)
  have sub: "generate_search_requests (Suc depth) w c s1 e1 ?st1 =
      Some (st\<lparr>history := history st @ [BASE_URL @ args, BASE_URL @ args1]\<rparr>, Some ex)"
    by simp
  have "split_loop (Suc depth) w c 0 (s1 # e1 # later) ?st1 =
      Some (st\<lparr>history := history st @ [BASE_URL @ args, BASE_URL @ args1]\<rparr>, Some ex)"
    using sub x(2) by (intro loop_failure[where start = s1]) simp_all
  then show "generate_search_requests (Suc (Suc depth)) w c s e st =
        Some (st\<lparr>history := history st @ [BASE_URL @ args, BASE_URL @ args1]\<rparr>, Some ex)"
    using own_saturated[of c s e args w st n "Suc depth"] a d by simp
next
  assume "(if i = 0 then Inr d else date_add_days d 1) = Inr s2"
    and "generate_search_requests depth w c s2 e2 st = Some (st', Some IndexError)"
  then show "split_loop depth w c i (d # e2 # later) st = split_loop depth w c (i + 1) (e2 # later) st'"
    by (rule loop_index_error)
next
  assume "generate_request_args c s e 1 = Inr args"
    and "first_page_outcome (w (length (history st)) (BASE_URL @ args)) = Inl ValueError"
  then show "generate_search_requests (Suc depth) w c s e st =
        split_loop depth w c 0
          (split_date_range_in_n s e (min (date_diff_days e s) DEFAULT_BATCHES_NUMBER))
          (st\<lparr>history := history st @ [BASE_URL @ args]\<rparr>)"
    by (rule own_value_error)
next
  assume r: "generate_search_requests depth w c s e st = Some (st', r)"
    and k: "length (history st) \<le> k" "k < length (history st')"
      "first_page_outcome (w k (history st' ! k)) = Inl ex" "ex \<noteq> ValueError" "ex \<noteq> IndexError"
  from generate_propagates[OF r] k show "r = Some ex" unfolding propagates_def by blast
  from generate_propagates[OF r] k show "Suc k = length (history st')" unfolding propagates_def by blast
qed


theorem fetch_failure_ends_partitioning_witness:
  "generate_request_args crit0 (jan 1) (jan 2) 1 = Inr q12
   \<and> generate_request_args crit0 (jan 1) (jan 4) 1 = Inr q14
   \<and> split_date_range_in_n (jan 1) (jan 4) (min (date_diff_days (jan 4) (jan 1)) DEFAULT_BATCHES_NUMBER)
       = [jan 1, jan 2, jan 4]
   \<and> first_page_outcome (breaking_web 0 (BASE_URL @ q14)) = Inr 12000
   \<and> first_page_outcome (breaking_web 1 (BASE_URL @ q12)) = Inl OtherException
   \<and> OtherException \<noteq> ValueError \<and> OtherException \<noteq> IndexError
   \<and> generate_search_requests (Suc 0) breaking_web crit0 (jan 1) (jan 2) after_q14
       = Some (after_q14_q12, Some OtherException)
   \<and> split_loop (Suc 0) breaking_web crit0 0 [jan 1, jan 2, jan 4] after_q14
       = Some (after_q14_q12, Some OtherException)
   \<and> generate_search_requests (Suc (Suc 0)) breaking_web crit0 (jan 1) (jan 4) init_state
       = Some (after_q14_q12, Some OtherException)
   \<and> first_page_outcome (skipping_web 1 (BASE_URL @ q12)) = Inl IndexError
   \<and> IndexError \<noteq> ValueError
   \<and> generate_search_requests (Suc 0) skipping_web crit0 (jan 1) (jan 2) after_q14
       = Some (after_q14_q12, Some IndexError)
   \<and> split_loop (Suc 0) skipping_web crit0 0 [jan 1, jan 2, jan 4] after_q14
       = Some (\<lparr>search_requests = [q34], history = [BASE_URL @ q14, BASE_URL @ q12, BASE_URL @ q34],
                results_csv = []\<rparr>, None)
   \<and> first_page_outcome (value_error_web 0 (BASE_URL @ q14)) = Inl ValueError
   \<and> generate_search_requests (Suc (Suc 0)) value_error_web crit0 (jan 1) (jan 4) init_state
       = Some (\<lparr>search_requests = [q12, q34], history = [BASE_URL @ q14, BASE_URL @ q12, BASE_URL @ q34],
                results_csv = []\<rparr>, None)
   \<and> length (history init_state) \<le> 1 \<and> 1 < length (history after_q14_q12)
   \<and> history after_q14_q12 ! 1 = BASE_URL @ q12
   \<and> Suc 1 = length (history after_q14_q12)"
proof -
  have a12: "generate_request_args crit0 (jan 1) (jan 2) 1 = Inr q12"
    using args12 by (simp add: q12_def)
  have a14: "generate_request_args crit0 (jan 1) (jan 4) 1 = Inr q14"
    using args14 by (simp add: q14_def)
  have h0: "length (history init_state) = 0" "length (history after_q14) = 1"
    by (simp_all add: init_state_def after_q14_def)
  have st1: "init_state\<lparr>history := history init_state @ [BASE_URL @ q14]\<rparr> = after_q14"
    by (simp add: init_state_def after_q14_def)
  have st2: "after_q14\<lparr>history := history after_q14 @ [BASE_URL @ q12]\<rparr> = after_q14_q12"
    by (simp add: after_q14_def after_q14_q12_def)
  have st3: "init_state\<lparr>history := history init_state @ [BASE_URL @ q14, BASE_URL @ q12]\<rparr> = after_q14_q12"
    by (simp add: init_state_def after_q14_q12_def)
  have b0: "first_page_outcome (breaking_web 0 (BASE_URL @ q14)) = Inr 12000"
    by (simp add: breaking_web_def count_page_def first_page_outcome_def parse_number_of_results_def)
  have b1: "first_page_outcome (breaking_web 1 (BASE_URL @ q12)) = Inl OtherException"
    by (simp add: breaking_web_def broken_page_def first_page_outcome_def)
  have k1: "first_page_outcome (skipping_web 1 (BASE_URL @ q12)) = Inl IndexError"
    by (simp add: skipping_web_def index_error_page_def first_page_outcome_def)
  have v0: "first_page_outcome (value_error_web 0 (BASE_URL @ q14)) = Inl ValueError"
    by (simp add: value_error_web_def value_error_page_def first_page_outcome_def)
  have x: "OtherException \<noteq> ValueError" "OtherException \<noteq> IndexError" "IndexError \<noteq> ValueError"
    by simp_all
  have own: "generate_search_requests (Suc 0) breaking_web crit0 (jan 1) (jan 2) after_q14
       = Some (after_q14_q12, Some OtherException)"
    using fetch_failure_ends_partitioning[where c = crit0 and s = "jan 1" and e = "jan 2" and args = q12
        and w = breaking_web and st = after_q14 and ex = OtherException and depth = 0, THEN conjunct1]
      a12 b1 x(1) by (simp add: h0 st2)
  have loop: "split_loop (Suc 0) breaking_web crit0 0 [jan 1, jan 2, jan 4] after_q14
       = Some (after_q14_q12, Some OtherException)"
    using fetch_failure_ends_partitioning[where i = 0 and d = "jan 1" and ?s2.0 = "jan 1" and ?e2.0 = "jan 2"
        and depth = "Suc 0" and w = breaking_web and c = crit0 and st = after_q14 and st' = after_q14_q12
        and ex = OtherException and later = "[jan 4]", THEN conjunct2, THEN conjunct1]
      own x(2) by simp
  have parent: "generate_search_requests (Suc (Suc 0)) breaking_web crit0 (jan 1) (jan 4) init_state
       = Some (after_q14_q12, Some OtherException)"
    using fetch_failure_ends_partitioning[where c = crit0 and s = "jan 1" and e = "jan 4" and args = q14
        and w = breaking_web and st = init_state and n = 12000 and ?s1.0 = "jan 1" and ?e1.0 = "jan 2"
        and later = "[jan 4]" and ?args1.0 = q12 and ex = OtherException and depth = 0,
        THEN conjunct2, THEN conjunct2, THEN conjunct1]
      a14 a12 b0 b1 x split14 by (simp add: h0 st3)
  have sub: "generate_search_requests (Suc 0) skipping_web crit0 (jan 1) (jan 2) after_q14
       = Some (after_q14_q12, Some IndexError)"
    using fetch_failure_ends_partitioning[where c = crit0 and s = "jan 1" and e = "jan 2" and args = q12
        and w = skipping_web and st = after_q14 and ex = IndexError and depth = 0, THEN conjunct1]
      a12 k1 x(3) by (simp add: h0 st2)
  have skip: "split_loop (Suc 0) skipping_web crit0 0 [jan 1, jan 2, jan 4] after_q14
       = Some (\<lparr>search_requests = [q34], history = [BASE_URL @ q14, BASE_URL @ q12, BASE_URL @ q34],
                results_csv = []\<rparr>, None)"
    using fetch_failure_ends_partitioning[where i = 0 and d = "jan 1" and ?s2.0 = "jan 1" and ?e2.0 = "jan 2"
        and depth = "Suc 0" and w = skipping_web and c = crit0 and st = after_q14 and st' = after_q14_q12
        and later = "[jan 4]", THEN conjunct2, THEN conjunct2, THEN conjunct2, THEN conjunct1]
      sub skipping_rest by simp
  have ve: "generate_search_requests (Suc (Suc 0)) value_error_web crit0 (jan 1) (jan 4) init_state
       = Some (\<lparr>search_requests = [q12, q34], history = [BASE_URL @ q14, BASE_URL @ q12, BASE_URL @ q34],
                results_csv = []\<rparr>, None)"
    using fetch_failure_ends_partitioning[where c = crit0 and s = "jan 1" and e = "jan 4" and args = q14
        and w = value_error_web and st = init_state and depth = "Suc 0",
        THEN conjunct2, THEN conjunct2, THEN conjunct2, THEN conjunct2, THEN conjunct1]
      a14 v0 split14 value_error_rest by (simp add: h0 st1)
  have run: "generate_search_requests 2 breaking_web crit0 (jan 1) (jan 4) init_state
       = Some (after_q14_q12, Some OtherException)"
    using breaking_run by (simp add: after_q14_q12_def q14_def q12_def)
  have h: "length (history init_state) \<le> 1" "1 < length (history after_q14_q12)"
    "history after_q14_q12 ! 1 = BASE_URL @ q12"
    by (simp_all add: init_state_def after_q14_q12_def)
  have last: "Suc 1 = length (history after_q14_q12)"
    using fetch_failure_ends_partitioning[where depth = 2 and w = breaking_web and c = crit0 and s = "jan 1"
        and e = "jan 4" and st = init_state and st' = after_q14_q12 and r = "Some OtherException"
        and k = 1 and ex = OtherException,
        THEN conjunct2, THEN conjunct2, THEN conjunct2, THEN conjunct2, THEN conjunct2]
      run h b1 x by simp
  show ?thesis
    using a12 a14 split14 b0 b1 x own loop parent k1 sub skip v0 ve h last by blast
qed

section \<open>Claims about the record parser\<close>

text \<open>
  Claim C7: the path segment of the two constructed URLs is the company identifier
  with exactly its leading zeros stripped, and \<open>company_cik\<close> keeps the raw identifier.
  For the row of the company with CIK 1018840 the record keeps the raw identifier
  0001018840, but the path segment is 101884: \<open>strip("0")\<close> removes the trailing zero
  as well as the leading ones.
\<close>

theorem trailing_zero_of_cik_stripped:
  "map_sum id (\<lambda>r. (company_cik r, filing_details_url r, filing_document_url r))
     (parse_table_row row_cik_1018840) =
   Inr (Some ''0001018840'',
     ''https://www.sec.gov/Archives/edgar/data/101884/000101884024000012/0001018840-24-000012-index.html'',
     ''https://www.sec.gov/Archives/edgar/data/101884/000101884024000012/anf-20240203.htm'')"
  by code_simp

section \<open>Claims about the sink writer\<close>

lemma write_results_eq:
  "write_results_to_csv data f = (if f = [] then writeheader else f) @ concat (map writerow (concat data))"
  by (simp add: write_results_to_csv_def)

lemma writeheader_nonempty: "writeheader \<noteq> []"
  by (simp add: writeheader_def csv_line_def)

lemma csv_field_eq:
  "csv_field s = (if \<exists>c \<in> set s. csv_special c then [CHR 0x22] @ csv_escape s @ [CHR 0x22] else s)"
  by (simp add: csv_field_def csv_special_def csv_escape_def)

lemma read_plain:
  "\<forall>c \<in> set s. \<not> csv_special c \<Longrightarrow> csv_read InField f fs (s @ rest) = csv_read InField (f @ s) fs rest"
  by (induction s arbitrary: f) (simp_all add: csv_special_def)

lemma read_plain_start:
  "\<forall>c \<in> set s. \<not> csv_special c \<Longrightarrow> s \<noteq> [] \<Longrightarrow>
     csv_read StartField [] fs (s @ rest) = csv_read InField s fs rest"
  using read_plain[of "tl s" "[hd s]" fs rest]
  by (cases s) (simp_all add: csv_special_def)

lemma read_quoted:
  "csv_read InQuotedField f fs (csv_escape s @ CHR 0x22 # rest) = csv_read QuoteInQuotedField (f @ s) fs rest"
  by (induction s arbitrary: f) (simp_all add: csv_escape_def)

lemma read_field_comma:
  "csv_read StartField [] fs (csv_field v @ CHR '','' # rest) = csv_read StartField [] (fs @ [v]) rest"
proof (cases "\<exists>c \<in> set v. csv_special c")
  case True
  then show ?thesis using read_quoted[of "[]" fs v "CHR '','' # rest"] by (simp add: csv_field_eq)
next
  case False
  then show ?thesis using read_plain_start[of v fs "CHR '','' # rest"]
    by (cases "v = []") (simp_all add: csv_field_eq)
qed

lemma read_field_crlf:
  "csv_read StartField [] fs (csv_field v @ CHR 0x0D # CHR 0x0A # rest)
     = (fs @ [v]) # csv_read StartRecord [] [] rest"
proof (cases "\<exists>c \<in> set v. csv_special c")
  case True
  then show ?thesis using read_quoted[of "[]" fs v "CHR 0x0D # CHR 0x0A # rest"]
    by (simp add: csv_field_eq)
next
  case False
  then show ?thesis using read_plain_start[of v fs "CHR 0x0D # CHR 0x0A # rest"]
    by (cases "v = []") (simp_all add: csv_field_eq)
qed

lemma read_line:
  "vals \<noteq> [] \<Longrightarrow>
     csv_read StartField [] fs (csv_line vals @ rest) = (fs @ vals) # csv_read StartRecord [] [] rest"
proof (induction vals arbitrary: fs)
  case Nil
  then show ?case by simp
next
  case (Cons v vals)
  show ?case
  proof (cases vals)
    case Nil
    then show ?thesis using read_field_crlf[of fs v rest] by (simp add: csv_line_def)
  next
    case (Cons w ws)
    then have "csv_line (v # vals) @ rest = csv_field v @ CHR '','' # (csv_line vals @ rest)"
      by (simp add: csv_line_def)
    then show ?thesis using Cons.IH[of "fs @ [v]"] Cons by (simp add: read_field_comma)
  qed
qed

lemma start_record_is_start_field:
  "c \<noteq> CHR 0x0D \<Longrightarrow> c \<noteq> CHR 0x0A \<Longrightarrow>
     csv_read StartRecord f fs (c # cs) = csv_read StartField [] [] (c # cs)"
  by simp

lemma csv_field_first:
  "csv_field v @ CHR '','' # r = c # cs \<Longrightarrow> c \<noteq> CHR 0x0D \<and> c \<noteq> CHR 0x0A"
  by (cases v) (auto simp: csv_field_eq csv_special_def split: if_splits)

lemma read_record:
  assumes "2 \<le> length vals"
  shows "csv_read StartRecord [] [] (csv_line vals @ rest) = vals # csv_read StartRecord [] [] rest"
proof -
  from assms obtain v w ws where v: "vals = v # w # ws"
    by (cases vals; cases "tl vals") auto
  then obtain r where l: "csv_line vals @ rest = csv_field v @ CHR '','' # r"
    by (simp add: csv_line_def)
  obtain c cs where c: "csv_field v @ CHR '','' # r = c # cs"
    by (cases "csv_field v @ CHR '','' # r") auto
  from csv_field_first[OF c] have "csv_read StartRecord [] [] (c # cs) = csv_read StartField [] [] (c # cs)"
    by (intro start_record_is_start_field) simp_all
  with l c have "csv_read StartRecord [] [] (csv_line vals @ rest)
      = csv_read StartField [] [] (csv_line vals @ rest)" by simp
  also have "\<dots> = ([] @ vals) # csv_read StartRecord [] [] rest"
    using v by (intro read_line) simp
  finally show ?thesis by simp
qed

lemma read_records:
  "\<forall>vals \<in> set rows. 2 \<le> length vals \<Longrightarrow>
     csv_read StartRecord [] [] (concat (map csv_line rows) @ rest) = rows @ csv_read StartRecord [] [] rest"
  by (induction rows) (simp_all add: read_record)

lemma writerow_eq: "writerow r = csv_line (record_values r)"
  by (simp add: writerow_def record_values_def)

lemma rows_of_file:
  "csv_rows (writeheader @ concat (map writerow recs)) = fieldnames # map record_values recs"
proof -
  have "writeheader @ concat (map writerow recs)
      = concat (map csv_line (fieldnames # map record_values recs)) @ []"
    by (simp add: writeheader_def writerow_eq[abs_def] comp_def)
  moreover have "\<forall>vals \<in> set (fieldnames # map record_values recs). 2 \<le> length vals"
    by (auto simp: fieldnames_def record_values_def)
  ultimately show ?thesis
    unfolding csv_rows_def using read_records[of "fieldnames # map record_values recs" "[]"]
    by simp
qed


lemma writeheader_text: "writeheader = header_line @ [CHR 0x0D, CHR 0x0A]"
  by code_simp

lemma set_join: "set (join sep xs) \<subseteq> set sep \<union> \<Union> (set ` set xs)"
  by (induction sep xs rule: join.induct) auto

lemma set_csv_field: "set (csv_field v) \<subseteq> insert (CHR 0x22) (set v)"
  by (auto simp: csv_field_def split: if_splits)

lemma line_without_break:
  assumes "\<forall>v \<in> set vals. \<not> has_line_break v"
  shows "\<not> has_line_break (join '','' (map csv_field vals))"
proof -
  have "set (join '','' (map csv_field vals)) \<subseteq> {CHR '',''} \<union> \<Union> (set ` set (map csv_field vals))"
    using set_join[of "'',''" "map csv_field vals"] by simp
  also have "\<dots> \<subseteq> {CHR '','', CHR 0x22} \<union> \<Union> (set ` set vals)"
    using set_csv_field by fastforce
  finally show ?thesis using assms by (auto simp: has_line_break_def)
qed

lemma rows_of_appended:
  "csv_rows (concat (map writerow recs)) = map record_values recs"
proof -
  have "concat (map writerow recs) = concat (map csv_line (map record_values recs)) @ []"
    by (simp add: writerow_eq[abs_def] comp_def)
  moreover have "\<forall>vals \<in> set (map record_values recs). 2 \<le> length vals"
    by (auto simp: record_values_def)
  ultimately show ?thesis
    unfolding csv_rows_def using read_records[of "map record_values recs" "[]"]
    by simp
qed

text \<open>
  Claim C9: the sink writer writes the column header exactly when the destination is
  empty when it is opened. Written to an empty destination, N records give a text
  that reads back as the row of the twelve column names followed by the N rows of the
  records' values, in their order: one header line and N data lines. Written to a
  destination that is not empty, the records are appended as data lines only, and what
  is appended reads back as the N rows of their values; so a second call after the
  first adds no header. The header is the line of the column names. The line of a
  record is its values, quoted where needed and joined by commas, and ends in carriage
  return, line feed: the only line break in it when no value holds one.
\<close>

theorem header_written_once:
  "write_results_to_csv data [] = writeheader @ concat (map writerow (concat data))
   \<and> (f \<noteq> [] \<longrightarrow> write_results_to_csv data f = f @ concat (map writerow (concat data)))
   \<and> write_results_to_csv data' (write_results_to_csv data []) =
       writeheader @ concat (map writerow (concat data)) @ concat (map writerow (concat data'))
   \<and> writeheader = header_line @ [CHR 0x0D, CHR 0x0A]
   \<and> csv_rows (write_results_to_csv data []) = fieldnames # map record_values (concat data)
   \<and> length (csv_rows (write_results_to_csv data [])) = 1 + length (concat data)
   \<and> csv_rows (concat (map writerow (concat data))) = map record_values (concat data)
   \<and> csv_rows (write_results_to_csv data' (write_results_to_csv data [])) =
       fieldnames # map record_values (concat data) @ map record_values (concat data')
   \<and> writerow r = join '','' (map csv_field (record_values r)) @ [CHR 0x0D, CHR 0x0A]
   \<and> ((\<forall>v \<in> set (record_values r). \<not> has_line_break v) \<longrightarrow>
        \<not> has_line_break (join '','' (map csv_field (record_values r))))"
proof -
  have fresh: "write_results_to_csv data [] = writeheader @ concat (map writerow (concat data))"
    by (simp add: write_results_eq)
  have second: "write_results_to_csv data' (write_results_to_csv data []) =
       writeheader @ concat (map writerow (concat data @ concat data'))"
    by (simp add: write_results_eq writeheader_nonempty)
  have rows1: "csv_rows (write_results_to_csv data []) = fieldnames # map record_values (concat data)"
    unfolding fresh by (rule rows_of_file)
  have rows2: "csv_rows (write_results_to_csv data' (write_results_to_csv data [])) =
       fieldnames # map record_values (concat data) @ map record_values (concat data')"
    unfolding second using rows_of_file[of "concat data @ concat data'"] by simp
  have row: "writerow r = join '','' (map csv_field (record_values r)) @ [CHR 0x0D, CHR 0x0A]"
    by (simp add: writerow_eq csv_line_def)
  show ?thesis
    using fresh second rows1 rows2 row writeheader_text rows_of_appended[of "concat data"]
      line_without_break[of "record_values r"]
    by (simp add: write_results_eq)
qed

theorem header_written_once_witness:
  "write_results_to_csv [[sample_record]] [] =
     header_line @ [CHR 0x0D, CHR 0x0A] @ sample_line @ [CHR 0x0D, CHR 0x0A]
   \<and> csv_rows (write_results_to_csv [[sample_record]] []) = [fieldnames, sample_values]
   \<and> length (csv_rows (write_results_to_csv [[sample_record]] [])) = 2
   \<and> write_results_to_csv [[sample_record]] [] \<noteq> []
   \<and> write_results_to_csv [[sample_record]] (write_results_to_csv [[sample_record]] []) =
       header_line @ [CHR 0x0D, CHR 0x0A] @ sample_line @ [CHR 0x0D, CHR 0x0A] @ sample_line @ [CHR 0x0D, CHR 0x0A]
   \<and> csv_rows (write_results_to_csv [[sample_record]] (write_results_to_csv [[sample_record]] [])) =
       [fieldnames, sample_values, sample_values]
   \<and> list_all (\<lambda>v. \<not> has_line_break v) (record_values sample_record)
   \<and> writerow sample_record = sample_line @ [CHR 0x0D, CHR 0x0A]
   \<and> \<not> has_line_break sample_line"
proof -
  note t = header_written_once[of "[[sample_record]]" "write_results_to_csv [[sample_record]] []"
      "[[sample_record]]" sample_record]
  have vals: "record_values sample_record = sample_values"
    by code_simp
  have enc: "join '','' (map csv_field sample_values) = sample_line"
    by code_simp
  have nb: "list_all (\<lambda>v. \<not> has_line_break v) (record_values sample_record)"
    by code_simp
  note c4 = t[THEN conjunct2, THEN conjunct2, THEN conjunct2]
  note c5 = c4[THEN conjunct2]
  note c6 = c5[THEN conjunct2]
  note c8 = c6[THEN conjunct2, THEN conjunct2]
  note c9 = c8[THEN conjunct2]
  have hdr: "writeheader = header_line @ [CHR 0x0D, CHR 0x0A]"
    using c4[THEN conjunct1] .
  have row: "writerow sample_record = sample_line @ [CHR 0x0D, CHR 0x0A]"
    using c9[THEN conjunct1] unfolding vals enc .
  have 1: "write_results_to_csv [[sample_record]] [] =
     header_line @ [CHR 0x0D, CHR 0x0A] @ sample_line @ [CHR 0x0D, CHR 0x0A]"
    using t[THEN conjunct1] unfolding hdr by (simp add: row)
  have ne: "write_results_to_csv [[sample_record]] [] \<noteq> []"
    unfolding 1 by simp
  have 2: "write_results_to_csv [[sample_record]] (write_results_to_csv [[sample_record]] []) =
       header_line @ [CHR 0x0D, CHR 0x0A] @ sample_line @ [CHR 0x0D, CHR 0x0A] @ sample_line @ [CHR 0x0D, CHR 0x0A]"
    using t[THEN conjunct2, THEN conjunct1] ne unfolding 1 by (simp add: row)
  have 3: "csv_rows (write_results_to_csv [[sample_record]] []) = [fieldnames, sample_values]"
    using c5[THEN conjunct1] by (simp add: vals)
  have len: "length (csv_rows (write_results_to_csv [[sample_record]] [])) = 2"
    using c6[THEN conjunct1] by simp
  have 4: "csv_rows (write_results_to_csv [[sample_record]] (write_results_to_csv [[sample_record]] [])) =
       [fieldnames, sample_values, sample_values]"
    using c8[THEN conjunct1] by (simp add: vals)
  have 5: "\<not> has_line_break sample_line"
    using c9[THEN conjunct2] nb unfolding vals enc by (simp add: list_all_iff)
  show ?thesis
    using 1 2 3 len 4 5 ne nb row by blast
qed

section \<open>Claims about the harvester\<close>

lemma fetch_pages_Cons:
  "fetch_pages w r (i # rest) st =
     (let (st2, yielded) = fetch_pages w r rest (st\<lparr>history := history st @ [page_url r i]\<rparr>)
      in (st2, (case page_outcome (w (length (history st)) (page_url r i)) of
                  Inl e \<Rightarrow> [] | Inr recs \<Rightarrow> [recs]) @ yielded))"
  by (simp add: fetch_page_def page_url_def page_outcome_def Let_def split: prod.splits sum.splits option.splits)

lemma fetch_pages_history:
  "history (fst (fetch_pages w r is st)) = history st @ map (page_url r) is"
proof (induction "is" arbitrary: st)
  case Nil
  show ?case by simp
next
  case (Cons i rest)
  show ?case
    using Cons.IH[of "st\<lparr>history := history st @ [page_url r i]\<rparr>"]
    by (auto simp add: fetch_pages_Cons simp del: fetch_pages.simps(2) split: prod.splits)
qed

lemma fetch_pages_append:
  "fetch_pages w r (xs @ ys) st =
     (let (st1, a) = fetch_pages w r xs st; (st2, b) = fetch_pages w r ys st1 in (st2, a @ b))"
proof (induction xs arbitrary: st)
  case Nil
  show ?case by (simp split: prod.splits)
next
  case (Cons i rest)
  show ?case
    by (simp add: fetch_pages_Cons Cons.IH del: fetch_pages.simps(2) split: prod.splits)
qed

lemma failing_page_skipped:
  assumes "page_outcome (w (length (history st) + length pre) (page_url r i)) = Inl ex"
  shows "fetch_pages w r (pre @ i # post) st =
     (let (st1, before) = fetch_pages w r pre st;
          (st2, after) = fetch_pages w r post (st1\<lparr>history := history st1 @ [page_url r i]\<rparr>)
      in (st2, before @ after))"
proof -
  obtain st1 before where p: "fetch_pages w r pre st = (st1, before)" by (cases "fetch_pages w r pre st")
  have "history st1 = history st @ map (page_url r) pre"
    using fetch_pages_history[of w r pre st] p by simp
  then have "length (history st1) = length (history st) + length pre" by simp
  with assms p show ?thesis
    by (simp add: fetch_pages_append fetch_pages_Cons del: fetch_pages.simps(2) split: prod.splits)
qed

lemma harvest_Cons_ok:
  assumes "fetch_error (w (length (history st)) (BASE_URL @ q)) = None"
    and "compute_number_of_pages (w (length (history st)) (BASE_URL @ q)) = Inr n"
  shows "harvest w (q # qs) st =
     (let (st2, yielded) = fetch_pages w q [1..n] (st\<lparr>history := history st @ [BASE_URL @ q]\<rparr>)
      in harvest w qs (st2\<lparr>results_csv := write_results_to_csv yielded (results_csv st2)\<rparr>))"
  using assms
  by (simp add: fetch_search_request_results_def fetch_page_def Let_def split: prod.splits)

lemma harvest_Cons_failed:
  assumes "fetch_error (w (length (history st)) (BASE_URL @ q)) = Some ex
      \<or> (fetch_error (w (length (history st)) (BASE_URL @ q)) = None
          \<and> compute_number_of_pages (w (length (history st)) (BASE_URL @ q)) = Inl ex)"
  shows "harvest w (q # qs) st =
     harvest w qs (st\<lparr>history := history st @ [BASE_URL @ q],
                        results_csv := write_results_to_csv [] (results_csv st)\<rparr>)"
  using assms
  by (auto simp add: fetch_search_request_results_def fetch_page_def Let_def split: prod.splits)


text \<open>
  Claim C5: a failure while fetching or parsing one page of a finalized query, of
  whatever kind, skips that page only: the pages before and after it are fetched and
  their records written. A failure at the level of the query (its first fetch or its
  page count) leaves the harvest running: it goes on with the next finalized query.
\<close>

theorem page_and_query_failures_are_skipped:
  "(fetch_error (w (length (history st)) (BASE_URL @ q)) = None \<longrightarrow>
    compute_number_of_pages (w (length (history st)) (BASE_URL @ q)) = Inr n \<longrightarrow>
    [1..n] = pre @ i # post \<longrightarrow>
    page_outcome (w (Suc (length (history st)) + length pre) (page_url q i)) = Inl ex \<longrightarrow>
    harvest w (q # qs) st =
      (let st0 = st\<lparr>history := history st @ [BASE_URL @ q]\<rparr>;
           (st1, before) = fetch_pages w q pre st0;
           (st2, after) = fetch_pages w q post (st1\<lparr>history := history st1 @ [page_url q i]\<rparr>)
       in harvest w qs (st2\<lparr>results_csv := write_results_to_csv (before @ after) (results_csv st2)\<rparr>)))
   \<and> (fetch_error (w (length (history st)) (BASE_URL @ q)) = Some ex
        \<or> (fetch_error (w (length (history st)) (BASE_URL @ q)) = None
            \<and> compute_number_of_pages (w (length (history st)) (BASE_URL @ q)) = Inl ex) \<longrightarrow>
       harvest w (q # qs) st =
         harvest w qs (st\<lparr>history := history st @ [BASE_URL @ q],
                            results_csv := write_results_to_csv [] (results_csv st)\<rparr>))
   \<and> history (fst (fetch_pages w q pages st)) = history st @ map (page_url q) pages"
proof (intro conjI impI)
  assume a: "fetch_error (w (length (history st)) (BASE_URL @ q)) = None"
    "compute_number_of_pages (w (length (history st)) (BASE_URL @ q)) = Inr n"
    and s: "[1..n] = pre @ i # post"
    and f: "page_outcome (w (Suc (length (history st)) + length pre) (page_url q i)) = Inl ex"
  let ?st0 = "st\<lparr>history := history st @ [BASE_URL @ q]\<rparr>"
  from f have "page_outcome (w (length (history ?st0) + length pre) (page_url q i)) = Inl ex"
    by simp
  from failing_page_skipped[of w ?st0 pre q i ex post, OF this] harvest_Cons_ok[of w st q n qs] a s
  show "harvest w (q # qs) st =
      (let st0 = st\<lparr>history := history st @ [BASE_URL @ q]\<rparr>;
           (st1, before) = fetch_pages w q pre st0;
           (st2, after) = fetch_pages w q post (st1\<lparr>history := history st1 @ [page_url q i]\<rparr>)
       in harvest w qs (st2\<lparr>results_csv := write_results_to_csv (before @ after) (results_csv st2)\<rparr>))"
    by (simp add: Let_def split: prod.splits)
next
  assume "fetch_error (w (length (history st)) (BASE_URL @ q)) = Some ex
        \<or> (fetch_error (w (length (history st)) (BASE_URL @ q)) = None
            \<and> compute_number_of_pages (w (length (history st)) (BASE_URL @ q)) = Inl ex)"
  then show "harvest w (q # qs) st =
         harvest w qs (st\<lparr>history := history st @ [BASE_URL @ q],
                            results_csv := write_results_to_csv [] (results_csv st)\<rparr>)"
    by (rule harvest_Cons_failed[of w st q ex qs])
next
  show "history (fst (fetch_pages w q pages st)) = history st @ map (page_url q) pages"
    by (rule fetch_pages_history)
qed

lemma five_page_run:
  "harvest five_page_web [q12, q34] init_state =
     \<lparr>search_requests = [],
      history = [BASE_URL @ q12, page_url q12 1, page_url q12 2, page_url q12 3, page_url q12 4,
                 page_url q12 5, BASE_URL @ q34],
      results_csv = writeheader @ writerow parsed_row @ writerow parsed_row @ writerow parsed_row
                      @ writerow parsed_row\<rparr>"
  by code_simp


lemma failing_query_run:
  "harvest failing_query_web [q12, q34] init_state =
     \<lparr>search_requests = [], history = [BASE_URL @ q12, BASE_URL @ q34], results_csv = writeheader\<rparr>"
  by code_simp

theorem page_and_query_failures_are_skipped_witness:
  "fetch_error (five_page_web (length (history init_state)) (BASE_URL @ q12)) = None
   \<and> compute_number_of_pages (five_page_web (length (history init_state)) (BASE_URL @ q12)) = Inr 5
   \<and> [1..5] = [1, 2] @ 3 # [4, 5]
   \<and> page_outcome (five_page_web (Suc (length (history init_state)) + length [1, 2 :: int]) (page_url q12 3))
       = Inl PageCheckFailedError
   \<and> harvest five_page_web [q12, q34] init_state =
      (let st0 = init_state\<lparr>history := history init_state @ [BASE_URL @ q12]\<rparr>;
           (st1, before) = fetch_pages five_page_web q12 [1, 2] st0;
           (st2, after) = fetch_pages five_page_web q12 [4, 5]
                            (st1\<lparr>history := history st1 @ [page_url q12 3]\<rparr>)
       in harvest five_page_web [q34]
            (st2\<lparr>results_csv := write_results_to_csv (before @ after) (results_csv st2)\<rparr>))
   \<and> harvest five_page_web [q12, q34] init_state =
     \<lparr>search_requests = [],
      history = [BASE_URL @ q12, page_url q12 1, page_url q12 2, page_url q12 3, page_url q12 4,
                 page_url q12 5, BASE_URL @ q34],
      results_csv = writeheader @ writerow parsed_row @ writerow parsed_row @ writerow parsed_row
                      @ writerow parsed_row\<rparr>
   \<and> fetch_error (failing_query_web (length (history init_state)) (BASE_URL @ q12))
       = Some PageCheckFailedError
   \<and> harvest failing_query_web [q12, q34] init_state =
       harvest failing_query_web [q34]
         (init_state\<lparr>history := history init_state @ [BASE_URL @ q12],
                      results_csv := write_results_to_csv [] (results_csv init_state)\<rparr>)
   \<and> harvest failing_query_web [q12, q34] init_state =
     \<lparr>search_requests = [], history = [BASE_URL @ q12, BASE_URL @ q34], results_csv = writeheader\<rparr>"
proof -
  have h1: "fetch_error (five_page_web (length (history init_state)) (BASE_URL @ q12)) = None"
    by (simp add: five_page_web_def count_page_def init_state_def)
  have h2: "compute_number_of_pages (five_page_web (length (history init_state)) (BASE_URL @ q12)) = Inr 5"
    by (simp add: five_page_web_def count_page_def init_state_def compute_number_of_pages_def
        parse_number_of_results_def)
  have h3: "[1..5] = [1, 2] @ 3 # [4, 5 :: int]" by code_simp
  have h4: "page_outcome (five_page_web (Suc (length (history init_state)) + length [1, 2 :: int]) (page_url q12 3))
       = Inl PageCheckFailedError"
    by (simp add: five_page_web_def timeout_page_def page_outcome_def init_state_def)
  have h5: "fetch_error (failing_query_web (length (history init_state)) (BASE_URL @ q12))
       = Some PageCheckFailedError"
    by (simp add: failing_query_web_def timeout_page_def init_state_def)
  note t = page_and_query_failures_are_skipped[of five_page_web init_state q12 5 "[1, 2]" 3 "[4, 5]"
      PageCheckFailedError "[q34]"]
  note u = page_and_query_failures_are_skipped[of failing_query_web init_state q12 _ _ _ _
      PageCheckFailedError "[q34]"]
  from t[THEN conjunct1] h1 h2 h3 h4 have c1: "harvest five_page_web [q12, q34] init_state =
      (let st0 = init_state\<lparr>history := history init_state @ [BASE_URL @ q12]\<rparr>;
           (st1, before) = fetch_pages five_page_web q12 [1, 2] st0;
           (st2, after) = fetch_pages five_page_web q12 [4, 5]
                            (st1\<lparr>history := history st1 @ [page_url q12 3]\<rparr>)
       in harvest five_page_web [q34]
            (st2\<lparr>results_csv := write_results_to_csv (before @ after) (results_csv st2)\<rparr>))"
    by blast
  from u[THEN conjunct2, THEN conjunct1] h5 have c2: "harvest failing_query_web [q12, q34] init_state =
       harvest failing_query_web [q34]
         (init_state\<lparr>history := history init_state @ [BASE_URL @ q12],
                      results_csv := write_results_to_csv [] (results_csv init_state)\<rparr>)"
    by blast
  show ?thesis using h1 h2 h3 h4 h5 c1 c2 five_page_run failing_query_run by blast
qed


section \<open>Claims about the harvest operation\<close>

lemma first_run:
  "custom_text_search 1 quiet_web crit0 (jan 1) (jan 2) init_state = Some (after_first_run, None)"
  by code_simp

lemma second_partition:
  "generate_search_requests 1 quiet_web crit0 (jan 3) (jan 4) after_first_run
     = Some (after_second_partition, None)"
  by code_simp

lemma second_run:
  "custom_text_search 1 quiet_web crit0 (jan 3) (jan 4) after_first_run =
     Some (\<lparr>search_requests = [q12, q34],
            history = [BASE_URL @ q12, BASE_URL @ q12, BASE_URL @ q34, BASE_URL @ q12, BASE_URL @ q34],
            results_csv = writeheader\<rparr>, None)"
  by code_simp

text \<open>
  Claim C10: at every invocation of the harvest operation on a scraper, the harvester
  paginates over exactly the queries finalized by that invocation's own partitioning.
  A first invocation for 1 to 2 January on a new scraper leaves its query in
  \<open>search_requests\<close>; a second invocation on the same scraper for 3 to 4 January
  finalizes one query, for 3 to 4 January, and then fetches the query for 1 to
  2 January again before it.
\<close>

theorem second_invocation_harvests_first_query_again:
  "custom_text_search 1 quiet_web crit0 (jan 1) (jan 2) init_state = Some (after_first_run, None)
   \<and> generate_search_requests 1 quiet_web crit0 (jan 3) (jan 4) after_first_run
       = Some (after_first_run\<lparr>search_requests := search_requests after_first_run @ [q34],
                               history := history after_first_run @ [BASE_URL @ q34]\<rparr>, None)
   \<and> custom_text_search 1 quiet_web crit0 (jan 3) (jan 4) after_first_run =
     Some (\<lparr>search_requests = [q12, q34],
            history = [BASE_URL @ q12, BASE_URL @ q12, BASE_URL @ q34, BASE_URL @ q12, BASE_URL @ q34],
            results_csv = writeheader\<rparr>, None)"
  using first_run second_partition second_run
  by (simp add: after_first_run_def after_second_partition_def)

text \<open>
  Claim C10, amended: \<open>search_requests\<close> is emptied only when the scraper is created.
  When the partitioning of an invocation ends without an exception, the harvester
  paginates over the list as it was before the invocation followed by the queries
  this invocation finalized; on a new scraper these are exactly the queries of the
  invocation.
\<close>

theorem harvest_runs_over_the_whole_list:
  assumes "generate_search_requests depth w c s e st = Some (st1, None)"
  shows "\<exists>finalized. search_requests st1 = search_requests st @ finalized
     \<and> custom_text_search depth w c s e st = Some (harvest w (search_requests st @ finalized) st1, None)"
proof -
  from generate_grows[OF assms] obtain finalized
    where f: "search_requests st1 = search_requests st @ finalized"
    by (auto simp: grows_def)
  with assms have "custom_text_search depth w c s e st
      = Some (harvest w (search_requests st @ finalized) st1, None)"
    by (simp add: custom_text_search_def)
  with f show ?thesis by blast
qed

theorem harvest_runs_over_the_whole_list_witness:
  "generate_search_requests 1 quiet_web crit0 (jan 3) (jan 4) after_first_run
     = Some (after_second_partition, None)
   \<and> (\<exists>finalized. search_requests after_second_partition = search_requests after_first_run @ finalized
     \<and> custom_text_search 1 quiet_web crit0 (jan 3) (jan 4) after_first_run
        = Some (harvest quiet_web (search_requests after_first_run @ finalized) after_second_partition, None))"
  using harvest_runs_over_the_whole_list[OF second_partition] second_partition by blast

section \<open>The encoder's strings\<close>

lemma digit_char_hex: "n < 16 \<Longrightarrow> digit_char n \<in> set ''0123456789ABCDEF''"
  unfolding digit_char_def by (rule nth_mem) simp

lemma digit_char_inj: "n < 16 \<Longrightarrow> m < 16 \<Longrightarrow> digit_char n = digit_char m \<Longrightarrow> n = m"
  unfolding digit_char_def by (subst (asm) nth_eq_iff_index_eq) simp_all

lemma of_char_lt_256: "(of_char c :: nat) < 256"
  by (cases c) (simp add: of_char_def horner_sum_eq_sum)

lemma nibbles: "(of_char c :: nat) div 16 < 16" "(of_char c :: nat) mod 16 < 16"
  using of_char_lt_256[of c] by arith+

lemma percent_byte_inj: "percent_byte c = percent_byte c' \<Longrightarrow> c = c'"
proof -
  assume a: "percent_byte c = percent_byte c'"
  let ?n = "of_char c :: nat" and ?m = "of_char c' :: nat"
  from a have "digit_char (?n div 16) = digit_char (?m div 16)"
    and "digit_char (?n mod 16) = digit_char (?m mod 16)"
    by (simp_all add: percent_byte_def)
  then have "?n div 16 = ?m div 16" "?n mod 16 = ?m mod 16"
    by (auto intro: digit_char_inj nibbles)
  then have "?n = ?m" by (metis div_mult_mod_eq)
  then show ?thesis by simp
qed

lemma percent_byte_chars: "set (percent_byte c) \<subseteq> set ''%0123456789ABCDEF''"
  using digit_char_hex[OF nibbles(1)[of c]] digit_char_hex[OF nibbles(2)[of c]]
  unfolding percent_byte_def by auto

lemma quote_plus_eq: "quote_plus s = concat (map enc_plus s)"
  by (simp add: quote_plus_def enc_plus_def[abs_def])

lemma quote_eq: "quote s = concat (map enc_quote s)"
  by (simp add: quote_def enc_quote_def[abs_def])

lemma safe_chars:
  "always_safe c \<Longrightarrow> c \<noteq> CHR ''&'' \<and> c \<noteq> CHR ''='' \<and> c \<noteq> CHR ''%'' \<and> c \<noteq> CHR ''+''"
  by (auto simp: always_safe_def)

lemma enc_plus_chars: "CHR ''&'' \<notin> set (enc_plus c) \<and> CHR ''='' \<notin> set (enc_plus c)"
  using percent_byte_chars[of c] by (auto simp: enc_plus_def dest: safe_chars)

lemma quote_plus_no_amp: "CHR ''&'' \<notin> set (quote_plus s)"
  by (induction s) (simp_all add: quote_plus_eq enc_plus_chars)

lemma quote_plus_no_eq: "CHR ''='' \<notin> set (quote_plus s)"
  by (induction s) (simp_all add: quote_plus_eq enc_plus_chars)

lemma enc_plus_prefix_free:
  "enc_plus c @ r = enc_plus c' @ r' \<Longrightarrow> c = c' \<and> r = r'"
  by (auto simp: enc_plus_def percent_byte_def split: if_splits dest: safe_chars
      intro: percent_byte_inj[unfolded percent_byte_def])

lemma enc_quote_prefix_free:
  "enc_quote c @ r = enc_quote c' @ r' \<Longrightarrow> c = c' \<and> r = r'"
  by (auto simp: enc_quote_def percent_byte_def split: if_splits dest: safe_chars
      intro: percent_byte_inj[unfolded percent_byte_def])

lemma enc_plus_nonempty: "enc_plus c \<noteq> []"
  by (simp add: enc_plus_def percent_byte_def)

lemma enc_quote_nonempty: "enc_quote c \<noteq> []"
  by (simp add: enc_quote_def percent_byte_def)

lemma quote_plus_inj: "quote_plus s = quote_plus t \<Longrightarrow> s = t"
proof (induction s arbitrary: t)
  case Nil
  then show ?case by (cases t) (simp_all add: quote_plus_eq enc_plus_nonempty)
next
  case (Cons c s)
  show ?case
  proof (cases t)
    case Nil
    with Cons.prems show ?thesis by (simp add: quote_plus_eq enc_plus_nonempty)
  next
    case (Cons c' t')
    with Cons.prems have "enc_plus c @ quote_plus s = enc_plus c' @ quote_plus t'"
      by (simp add: quote_plus_eq)
    then have "c = c'" "quote_plus s = quote_plus t'" by (auto dest: enc_plus_prefix_free)
    with Cons.IH Cons show ?thesis by simp
  qed
qed

lemma quote_inj: "quote s = quote t \<Longrightarrow> s = t"
proof (induction s arbitrary: t)
  case Nil
  then show ?case by (cases t) (simp_all add: quote_eq enc_quote_nonempty)
next
  case (Cons c s)
  show ?case
  proof (cases t)
    case Nil
    with Cons.prems show ?thesis by (simp add: quote_eq enc_quote_nonempty)
  next
    case (Cons c' t')
    with Cons.prems have "enc_quote c @ quote s = enc_quote c' @ quote t'"
      by (simp add: quote_eq)
    then have "c = c'" "quote s = quote t'" by (auto dest: enc_quote_prefix_free)
    with Cons.IH Cons show ?thesis by simp
  qed
qed

lemma split_char_nonempty: "split_char c s \<noteq> []"
  by (induction s) (auto split: list.splits)

lemma split_char_none: "c \<notin> set x \<Longrightarrow> split_char c x = [x]"
  by (induction x) (auto split: list.splits)

lemma split_char_append:
  "c \<notin> set x \<Longrightarrow> split_char c (x @ c # rest) = x # split_char c rest"
  by (induction x) (auto split: list.splits simp: split_char_nonempty)

lemma split_join:
  "xs \<noteq> [] \<Longrightarrow> \<forall>x \<in> set xs. c \<notin> set x \<Longrightarrow> split_char c (join [c] xs) = xs"
proof (induction xs)
  case Nil
  then show ?case by simp
next
  case (Cons x xs)
  show ?case
  proof (cases xs)
    case Nil
    with Cons.prems show ?thesis by (simp add: split_char_none)
  next
    case (Cons y ys)
    with Cons.prems Cons.IH show ?thesis by (simp add: split_char_append)
  qed
qed

lemma digit_val_digit_char: "n < 10 \<Longrightarrow> digit_val (digit_char n) = int n"
proof -
  assume "n < 10"
  then have "n \<in> {0, 1, 2, 3, 4, 5, 6, 7, 8, 9}" by auto
  then show ?thesis by (auto simp: digit_val_def digit_char_def)
qed

lemma dec_val_snoc: "dec_val (s @ [c]) = 10 * dec_val s + digit_val c"
  by (simp add: dec_val_def)

lemma dec_val_digits: "0 \<le> n \<Longrightarrow> dec_val (digits n) = n"
proof (induction n rule: digits.induct)
  case (1 n)
  show ?case
  proof (cases "n < 10")
    case True
    with 1(2) have "nat n < 10" by simp
    from digit_val_digit_char[OF this] True 1(2) show ?thesis
      by (subst digits.simps) (simp add: dec_val_def)
  next
    case False
    with 1 have ih: "dec_val (digits (n div 10)) = n div 10" by simp
    have "nat (n mod 10) < 10" by simp
    from digit_val_digit_char[OF this] have "digit_val (digit_char (nat (n mod 10))) = n mod 10"
      by simp
    with False ih show ?thesis
      by (subst digits.simps) (simp add: dec_val_snoc)
  qed
qed

lemma digits_inj: "0 \<le> n \<Longrightarrow> 0 \<le> m \<Longrightarrow> digits n = digits m \<Longrightarrow> n = m"
  by (metis dec_val_digits)

lemma digits_chars: "0 \<le> n \<Longrightarrow> set (digits n) \<subseteq> set ''0123456789''"
proof (induction n rule: digits.induct)
  case (1 n)
  have d: "\<And>k. k < 10 \<Longrightarrow> digit_char k \<in> set ''0123456789''"
  proof -
    fix k :: nat assume "k < 10"
    then have "k \<in> {0, 1, 2, 3, 4, 5, 6, 7, 8, 9}" by auto
    then show "digit_char k \<in> set ''0123456789''" by (auto simp: digit_char_def)
  qed
  show ?case
  proof (cases "n < 10")
    case True
    with 1(2) have "nat n < 10" by simp
    from d[OF this] True show ?thesis by (subst digits.simps) simp
  next
    case False
    with 1 have "set (digits (n div 10)) \<subseteq> set ''0123456789''" by simp
    moreover have "digit_char (nat (n mod 10)) \<in> set ''0123456789''" by (rule d) simp
    ultimately show ?thesis using False by (subst digits.simps) simp
  qed
qed

lemma str_int_inj: "str_int i = str_int j \<Longrightarrow> i = j"
proof -
  assume a: "str_int i = str_int j"
  have nd: "\<And>n r. 0 \<le> n \<Longrightarrow> digits n \<noteq> CHR ''-'' # r"
    using digits_chars by fastforce
  show ?thesis
  proof (cases "i < 0"; cases "j < 0")
    assume "i < 0" "j < 0"
    with a have "digits (- i) = digits (- j)" by (simp add: str_int_def)
    with \<open>i < 0\<close> \<open>j < 0\<close> have "- i = - j" by (intro digits_inj) simp_all
    then show ?thesis by simp
  next
    assume "i < 0" "\<not> j < 0"
    with a nd[of j "digits (- i)"] show ?thesis by (simp add: str_int_def)
  next
    assume "\<not> i < 0" "j < 0"
    with a nd[of i "digits (- j)"] show ?thesis by (simp add: str_int_def)
  next
    assume "\<not> i < 0" "\<not> j < 0"
    with a show ?thesis by (intro digits_inj) (simp_all add: str_int_def)
  qed
qed

lemma urlencode_eq: "urlencode kvs = join ''&'' (map encode_field kvs)"
proof -
  have "(\<lambda>(k, v). quote_plus k @ ''='' @ quote_plus v) = encode_field"
    by (rule ext) (simp add: encode_field_def case_prod_beta)
  then show ?thesis by (simp only: urlencode_def)
qed

lemma encode_field_no_amp: "CHR ''&'' \<notin> set (encode_field kv)"
  by (simp add: encode_field_def quote_plus_no_amp)

lemma split_urlencode: "kvs \<noteq> [] \<Longrightarrow> split_char CHR ''&'' (urlencode kvs) = map encode_field kvs"
  unfolding urlencode_eq by (rule split_join) (auto simp: encode_field_no_amp)

lemma request_args_fields:
  assumes "generate_request_args c s e p = Inr x"
  shows "x = urlencode (request_fields c s e p)"
    and "given_category c = None \<or> (\<exists>cat code. given_category c = Some cat
           \<and> map_of FILING_CATEGORIES_MAPPING cat = Some code)"
  using assms
  by (auto simp: generate_request_args_def request_fields_def keyword_text_def given_entity_def
      given_category_def truthy_def Let_def split: if_splits option.splits)

lemma request_fields_split:
  assumes "generate_request_args c s e p = Inr x"
  shows "split_char CHR ''&'' x = map encode_field (request_fields c s e p)"
  using request_args_fields(1)[OF assms] by (simp add: split_urlencode request_fields_def)

lemma page_field: "encode_field (''page'', str_int 1) = ''page=1''"
  by code_simp

lemma page_field_name: "takeWhile (\<lambda>c. c \<noteq> CHR ''='') ''page=1'' = ''page''"
  by simp

lemma page_1_in_args:
  assumes "generate_request_args c s e 1 = Inr x"
  shows "''page=1'' \<in> set (split_char CHR ''&'' x)" and "''page'' \<in> set (field_names x)"
proof -
  have "encode_field (''page'', str_int 1) \<in> set (map encode_field (request_fields c s e 1))"
    by (simp add: request_fields_def)
  then show a: "''page=1'' \<in> set (split_char CHR ''&'' x)"
    by (simp only: request_fields_split[OF assms] page_field)
  have "takeWhile (\<lambda>c. c \<noteq> CHR ''='') ''page=1'' \<in> set (field_names x)"
    unfolding field_names_def set_map using a by (rule imageI)
  then show "''page'' \<in> set (field_names x)" by (simp only: page_field_name)
qed

section \<open>Claims about the query encoder\<close>

lemma below_cap_run:
  "generate_search_requests 1 quiet_web crit0 (jan 1) (jan 2) init_state =
     Some (\<lparr>search_requests = [q12], history = [BASE_URL @ q12], results_csv = []\<rparr>, None)"
  by code_simp

lemma q12_fields: "field_names q12 = [''q'', ''dateRange'', ''startdt'', ''enddt'', ''page'']"
  by code_simp

text \<open>
  Claim C3: when the count of an interval is below the cap, the query string appended
  to the finalized-query list has no page-number field. For 1 to 2 January 2024
  with a count of 0 the string appended is the one below; its fields are q, dateRange,
  startdt, enddt and page.
\<close>

theorem finalized_query_has_page_field:
  "generate_search_requests 1 quiet_web crit0 (jan 1) (jan 2) init_state =
     Some (\<lparr>search_requests =
              [''q=annual%2520report&dateRange=custom&startdt=2024-01-01&enddt=2024-01-02&page=1''],
            history =
              [BASE_URL @ ''q=annual%2520report&dateRange=custom&startdt=2024-01-01&enddt=2024-01-02&page=1''],
            results_csv = []\<rparr>, None)
   \<and> field_names ''q=annual%2520report&dateRange=custom&startdt=2024-01-01&enddt=2024-01-02&page=1''
       = [''q'', ''dateRange'', ''startdt'', ''enddt'', ''page'']"
  using below_cap_run q12_fields by (simp add: q12_def)

text \<open>
  Claim C3, amended: when the count of an interval is below the cap, the query string
  appended to the finalized-query list is the encoder's output for page number 1, and
  it has the field \<open>page=1\<close>.
\<close>

theorem finalized_query_is_page_1_encoding:
  assumes "generate_request_args c s e 1 = Inr args"
    and "first_page_outcome (w (length (history st)) (BASE_URL @ args)) = Inr n"
    and "n < 10000"
  shows "generate_search_requests (Suc depth) w c s e st =
           Some (st\<lparr>history := history st @ [BASE_URL @ args],
                     search_requests := search_requests st @ [args]\<rparr>, None)
         \<and> ''page=1'' \<in> set (split_char CHR ''&'' args)
         \<and> ''page'' \<in> set (field_names args)"
  using assms page_1_in_args[OF assms(1)] by (simp add: fetch_first_eq)

theorem finalized_query_is_page_1_encoding_witness:
  "generate_request_args crit0 (jan 1) (jan 2) 1 = Inr q12
   \<and> first_page_outcome (quiet_web (length (history init_state)) (BASE_URL @ q12)) = Inr 0
   \<and> (0 :: int) < 10000
   \<and> generate_search_requests (Suc 0) quiet_web crit0 (jan 1) (jan 2) init_state =
           Some (init_state\<lparr>history := history init_state @ [BASE_URL @ q12],
                     search_requests := search_requests init_state @ [q12]\<rparr>, None)
   \<and> ''page=1'' \<in> set (split_char CHR ''&'' q12)
   \<and> ''page'' \<in> set (field_names q12)"
proof -
  have h1: "generate_request_args crit0 (jan 1) (jan 2) 1 = Inr q12"
    unfolding q12_def by (rule args12)
  have h2: "first_page_outcome (quiet_web (length (history init_state)) (BASE_URL @ q12)) = Inr 0"
    by (simp add: quiet_web_def count_page_def first_page_outcome_def parse_number_of_results_def)
  have h3: "(0 :: int) < 10000" by simp
  from finalized_query_is_page_1_encoding[of crit0 "jan 1" "jan 2" q12 quiet_web init_state 0 0]
    h1 h2 h3 show ?thesis by blast
qed

section \<open>The encoder is injective on what it keeps\<close>

lemma dec_val_zeros: "dec_val (replicate k CHR ''0'' @ s) = dec_val s"
proof -
  have z: "digit_val CHR ''0'' = 0" by (simp add: digit_val_def)
  have "foldl (\<lambda>a c. 10 * a + digit_val c) 0 (replicate k CHR ''0'') = 0"
    by (induction k) (simp_all add: z)
  then show ?thesis by (simp add: dec_val_def)
qed

lemma dec_val_zero_pad: "0 \<le> n \<Longrightarrow> dec_val (zero_pad w n) = n"
  by (simp add: zero_pad_def str_int_def dec_val_zeros dec_val_digits Let_def)

lemma length_digits: "0 \<le> n \<Longrightarrow> n < 10 ^ k \<Longrightarrow> 0 < k \<Longrightarrow> length (digits n) \<le> k"
proof (induction n arbitrary: k rule: digits.induct)
  case (1 n)
  show ?case
  proof (cases "n < 10")
    case True
    with 1(4) show ?thesis by (subst digits.simps) simp
  next
    case False
    obtain j where k: "k = Suc j" using 1(4) by (cases k) auto
    have "j \<noteq> 0"
    proof
      assume "j = 0"
      with 1(3) k have "n < 10" by simp
      with False show False by simp
    qed
    moreover have "n div 10 < 10 ^ j" using 1(3) k by simp
    ultimately have "length (digits (n div 10)) \<le> j"
      using 1(1)[OF False, of j] 1(2) by simp
    with False k show ?thesis by (subst digits.simps) simp
  qed
qed

lemma length_zero_pad: "0 \<le> n \<Longrightarrow> n < 10 ^ k \<Longrightarrow> 0 < k \<Longrightarrow> length (zero_pad k n) = k"
  using length_digits[of n k] by (simp add: zero_pad_def str_int_def Let_def)

lemma days_in_month_le: "1 \<le> m \<Longrightarrow> m \<le> 12 \<Longrightarrow> days_in_month y m \<le> 31"
proof -
  assume "1 \<le> m" "m \<le> 12"
  then have "m = 1 \<or> m = 2 \<or> m = 3 \<or> m = 4 \<or> m = 5 \<or> m = 6 \<or> m = 7 \<or> m = 8 \<or> m = 9
      \<or> m = 10 \<or> m = 11 \<or> m = 12" by arith
  then show ?thesis by (auto simp: days_in_month_def DAYS_IN_MONTH_def)
qed

lemma strftime_inj:
  assumes "valid_date a" "valid_date b" "strftime_ymd a = strftime_ymd b"
  shows "a = b"
proof -
  from assms(1) have ya: "0 \<le> year a" "year a < 10 ^ 4" and ma: "0 \<le> month a" "month a < 10 ^ 2"
    and da: "0 \<le> day a" "day a < 10 ^ 2"
    using days_in_month_le[of "month a" "year a"] by (auto simp: valid_date_def)
  from assms(2) have yb: "0 \<le> year b" "year b < 10 ^ 4" and mb: "0 \<le> month b" "month b < 10 ^ 2"
    and db: "0 \<le> day b" "day b < 10 ^ 2"
    using days_in_month_le[of "month b" "year b"] by (auto simp: valid_date_def)
  have l: "length (zero_pad 4 (year a)) = length (zero_pad 4 (year b))"
    "length (zero_pad 2 (month a)) = length (zero_pad 2 (month b))"
    using ya yb ma mb by (simp_all add: length_zero_pad)
  from assms(3) l have "zero_pad 4 (year a) = zero_pad 4 (year b)"
    "zero_pad 2 (month a) = zero_pad 2 (month b)" "zero_pad 2 (day a) = zero_pad 2 (day b)"
    by (simp_all add: strftime_ymd_def)
  then have "dec_val (zero_pad 4 (year a)) = dec_val (zero_pad 4 (year b))"
    "dec_val (zero_pad 2 (month a)) = dec_val (zero_pad 2 (month b))"
    "dec_val (zero_pad 2 (day a)) = dec_val (zero_pad 2 (day b))"
    by simp_all
  with ya yb ma mb da db have "year a = year b" "month a = month b" "day a = day b"
    by (simp_all add: dec_val_zero_pad)
  then show ?thesis by simp
qed

lemma split_at_separator:
  "c \<notin> set a \<Longrightarrow> c \<notin> set a' \<Longrightarrow> a @ c # b = a' @ c # b' \<Longrightarrow> a = a' \<and> b = b'"
proof (induction a arbitrary: a')
  case Nil
  then show ?case by (cases a') auto
next
  case (Cons x a)
  then show ?case by (cases a') auto
qed

lemma encode_field_inj: "encode_field kv = encode_field kv' \<Longrightarrow> kv = kv'"
proof -
  assume a: "encode_field kv = encode_field kv'"
  have "quote_plus (fst kv) = quote_plus (fst kv') \<and> quote_plus (snd kv) = quote_plus (snd kv')"
    using a quote_plus_no_eq[of "fst kv"] quote_plus_no_eq[of "fst kv'"]
    unfolding encode_field_def
    by (intro split_at_separator[where c = "CHR ''=''"]) simp_all
  then show ?thesis by (auto dest: quote_plus_inj intro: prod_eqI)
qed

lemma map_of_value_inj:
  "distinct (map snd xs) \<Longrightarrow> map_of xs k = Some v \<Longrightarrow> map_of xs k' = Some v \<Longrightarrow> k = k'"
proof (induction xs)
  case Nil
  then show ?case by simp
next
  case (Cons x xs)
  then show ?case
    by (cases x) (auto split: if_splits dest: map_of_SomeD intro: rev_image_eqI)
qed

lemma category_codes_distinct: "distinct (map snd FILING_CATEGORIES_MAPPING)"
  by (simp add: FILING_CATEGORIES_MAPPING_def)

lemma request_fields_cong:
  "keyword_text c = keyword_text c' \<Longrightarrow> given_entity c = given_entity c' \<Longrightarrow>
   given_category c = given_category c' \<Longrightarrow> request_fields c s e p = request_fields c' s e p"
  by (simp add: request_fields_def)

lemma request_fields_inj:
  assumes eq: "request_fields c s e p = request_fields c' s' e' p'"
    and cat: "given_category c = None \<or> (\<exists>cat code. given_category c = Some cat
           \<and> map_of FILING_CATEGORIES_MAPPING cat = Some code)"
    and cat': "given_category c' = None \<or> (\<exists>cat code. given_category c' = Some cat
           \<and> map_of FILING_CATEGORIES_MAPPING cat = Some code)"
    and v: "valid_date s" "valid_date e" "valid_date s'" "valid_date e'"
  shows "keyword_text c = keyword_text c' \<and> given_entity c = given_entity c'
     \<and> given_category c = given_category c' \<and> s = s' \<and> e = e' \<and> p = p'"
proof -
  from eq have q: "quote (keyword_text c) = quote (keyword_text c')"
    and sd: "strftime_ymd s = strftime_ymd s'" and ed: "strftime_ymd e = strftime_ymd e'"
    and pg: "str_int p = str_int p'"
    and rest: "(case given_entity c of None \<Rightarrow> [] | Some ent \<Rightarrow> [(''entityName'', ent)])
       @ (case given_category c of None \<Rightarrow> []
          | Some cat \<Rightarrow> [(''category'', the (map_of FILING_CATEGORIES_MAPPING cat))])
       = (case given_entity c' of None \<Rightarrow> [] | Some ent \<Rightarrow> [(''entityName'', ent)])
       @ (case given_category c' of None \<Rightarrow> []
          | Some cat \<Rightarrow> [(''category'', the (map_of FILING_CATEGORIES_MAPPING cat))])"
    by (simp_all add: request_fields_def)
  from q have 1: "keyword_text c = keyword_text c'" by (rule quote_inj)
  from v sd have 2: "s = s'" by (intro strftime_inj)
  from v ed have 3: "e = e'" by (intro strftime_inj)
  from pg have 4: "p = p'" by (rule str_int_inj)
  from rest have 5: "given_entity c = given_entity c'"
    by (cases "given_entity c"; cases "given_entity c'"; cases "given_category c";
        cases "given_category c'") simp_all
  from rest have "given_category c = given_category c' \<or>
      (\<exists>cat cat'. given_category c = Some cat \<and> given_category c' = Some cat'
         \<and> the (map_of FILING_CATEGORIES_MAPPING cat) = the (map_of FILING_CATEGORIES_MAPPING cat'))"
    by (cases "given_entity c"; cases "given_entity c'"; cases "given_category c";
        cases "given_category c'") simp_all
  with cat cat' have 6: "given_category c = given_category c'"
    by (auto dest: map_of_value_inj[OF category_codes_distinct])
  from 1 2 3 4 5 6 show ?thesis by simp
qed

text \<open>
  Claim C8: the encoder is deterministic, and two differing logical inputs (up to the
  omission of absent optional fields) give differing strings. The keyword lists
  ["annual report"] and ["annual", "report"] differ and give the same string; so do
  the keyword annual report under exact search and the keyword "annual report",
  quotation marks included, without it.
\<close>

theorem differing_keywords_same_encoding:
  "search_keywords crit_joined \<noteq> search_keywords crit0
   \<and> generate_request_args crit_joined (jan 1) (jan 2) 1 = generate_request_args crit0 (jan 1) (jan 2) 1
   \<and> (search_keywords crit_exact, exact_search crit_exact)
       \<noteq> (search_keywords crit_quoted, exact_search crit_quoted)
   \<and> generate_request_args crit_exact (jan 1) (jan 2) 1 = generate_request_args crit_quoted (jan 1) (jan 2) 1"
  by code_simp

text \<open>
  Claim C8, amended: the encoder is a function of its inputs, and two inputs that it
  accepts give the same string exactly when they agree on the keyword text (the
  keywords joined by spaces, in quotation marks under exact search), on the entity
  identifier and the filing category (an empty one counting as absent), on the two
  dates and on the page number.
\<close>

theorem encoding_determined_by_logical_fields:
  assumes "generate_request_args c s e p = Inr x" and "generate_request_args c' s' e' p' = Inr x'"
    and "valid_date s" and "valid_date e" and "valid_date s'" and "valid_date e'"
  shows "(x = x') = (keyword_text c = keyword_text c' \<and> given_entity c = given_entity c'
     \<and> given_category c = given_category c' \<and> s = s' \<and> e = e' \<and> p = p')"
proof
  assume "x = x'"
  then have "split_char CHR ''&'' x = split_char CHR ''&'' x'" by simp
  then have "map encode_field (request_fields c s e p) = map encode_field (request_fields c' s' e' p')"
    by (simp only: request_fields_split[OF assms(1)] request_fields_split[OF assms(2)])
  moreover have "inj encode_field" by (rule injI) (rule encode_field_inj)
  ultimately have "request_fields c s e p = request_fields c' s' e' p'"
    by (simp add: inj_map_eq_map)
  then show "keyword_text c = keyword_text c' \<and> given_entity c = given_entity c'
     \<and> given_category c = given_category c' \<and> s = s' \<and> e = e' \<and> p = p'"
    using request_args_fields(2)[OF assms(1)] request_args_fields(2)[OF assms(2)] assms(3-6)
    by (rule request_fields_inj)
next
  assume a: "keyword_text c = keyword_text c' \<and> given_entity c = given_entity c'
     \<and> given_category c = given_category c' \<and> s = s' \<and> e = e' \<and> p = p'"
  then have "request_fields c s e p = request_fields c' s' e' p'"
    by (simp add: request_fields_def)
  with request_args_fields(1)[OF assms(1)] request_args_fields(1)[OF assms(2)]
  show "x = x'" by simp
qed

lemma joined_args: "generate_request_args crit_joined (jan 1) (jan 2) 1 = Inr q12"
  by code_simp

lemma split_args: "generate_request_args crit0 (jan 1) (jan 2) 1 = Inr q12"
  by code_simp

lemma later_args: "generate_request_args crit0 (jan 3) (jan 4) 1 = Inr q34"
  by code_simp

lemma valid_jan: "valid_date (jan 1)" "valid_date (jan 2)" "valid_date (jan 3)" "valid_date (jan 4)"
  by code_simp+

theorem encoding_determined_by_logical_fields_witness:
  "generate_request_args crit_joined (jan 1) (jan 2) 1 = Inr q12
   \<and> generate_request_args crit0 (jan 1) (jan 2) 1 = Inr q12
   \<and> generate_request_args crit0 (jan 3) (jan 4) 1 = Inr q34
   \<and> valid_date (jan 1) \<and> valid_date (jan 2) \<and> valid_date (jan 3) \<and> valid_date (jan 4)
   \<and> ((q12 = q12) = (keyword_text crit_joined = keyword_text crit0
         \<and> given_entity crit_joined = given_entity crit0
         \<and> given_category crit_joined = given_category crit0
         \<and> jan 1 = jan 1 \<and> jan 2 = jan 2 \<and> (1 :: int) = 1))
   \<and> ((q12 = q34) = (keyword_text crit0 = keyword_text crit0
         \<and> given_entity crit0 = given_entity crit0
         \<and> given_category crit0 = given_category crit0
         \<and> jan 1 = jan 3 \<and> jan 2 = jan 4 \<and> (1 :: int) = 1))"
  using encoding_determined_by_logical_fields[OF joined_args split_args valid_jan(1,2) valid_jan(1,2)]
    encoding_determined_by_logical_fields[OF split_args later_args valid_jan(1,2) valid_jan(3,4)]
    joined_args split_args later_args valid_jan
  by blast

end
